theory Spec2Isabelle
  imports Main "HOL-Library.AList"
begin

section \<open>Errors and platform\<close>

text \<open>
  The exceptions that \<^verbatim>\<open>remove_and_reindex\<close> can raise, as values. A run is a
  function into \<open>error + dataset\<close>; \<open>Inl\<close> is the exception that aborted it.
\<close>

datatype error =
  FileNotFoundError | FileExistsError | ValueError | IndexError | KeyError | TypeError

text \<open>
  \<^verbatim>\<open>Path.rename\<close> replaces an existing target silently on Unix and raises
  \<^verbatim>\<open>FileExistsError\<close> on Windows. The platform is a parameter of the model.
\<close>

datatype platform = Posix | Windows

section \<open>Directories\<close>

text \<open>
  A directory is the list of its entries (file name, content) in listing order. The
  content type is left open: the tool never reads a parquet or mp4 payload.
\<close>

type_synonym 'c dir = "(string \<times> 'c) list"

definition wf_dir :: "'c dir \<Rightarrow> bool" where
  "wf_dir d = distinct (map fst d)"

definition exists_file :: "'c dir \<Rightarrow> string \<Rightarrow> bool" where
  "exists_file d n = (map_of d n \<noteq> None)"

definition unlink :: "string \<Rightarrow> 'c dir \<Rightarrow> 'c dir" where
  "unlink n d = AList.delete n d"

definition rename :: "platform \<Rightarrow> string \<Rightarrow> string \<Rightarrow> 'c dir \<Rightarrow> error + 'c dir" where
  "rename pf src dst d =
     (case map_of d src of
        None \<Rightarrow> Inl FileNotFoundError
      | Some c \<Rightarrow>
          if pf = Windows \<and> exists_file d dst then Inl FileExistsError
          else Inr (AList.update dst c (AList.delete src d)))"

section \<open>File names\<close>

text \<open>
  \<^verbatim>\<open>f"episode_{ep:06d}.parquet"\<close>: the decimal numeral, zero-padded to width 6, the
  sign counted in the width and written before the zeros (\<^verbatim>\<open>-00001\<close>); a numeral
  longer than the width is written in full.
\<close>

definition digit_char :: "nat \<Rightarrow> char" where
  "digit_char k = char_of (48 + k)"

fun dec_digits :: "nat \<Rightarrow> string" where
  "dec_digits n =
     (if n < 10 then [digit_char n] else dec_digits (n div 10) @ [digit_char (n mod 10)])"

definition zero_pad :: "nat \<Rightarrow> string \<Rightarrow> string" where
  "zero_pad w s = replicate (w - length s) (CHR ''0'') @ s"

definition fmt_06d :: "int \<Rightarrow> string" where
  "fmt_06d i =
     (if i < 0 then CHR ''-'' # zero_pad 5 (dec_digits (nat (- i)))
      else zero_pad 6 (dec_digits (nat i)))"

definition parquet_name :: "int \<Rightarrow> string" where
  "parquet_name ep = ''episode_'' @ fmt_06d ep @ ''.parquet''"

definition mp4_name :: "int \<Rightarrow> string" where
  "mp4_name ep = ''episode_'' @ fmt_06d ep @ ''.mp4''"

text \<open>
  \<^verbatim>\<open>data_dir.glob("episode_*.parquet")\<close>: the names that start with
  \<^verbatim>\<open>episode_\<close> and, after it, end with \<^verbatim>\<open>.parquet\<close>.
\<close>

definition glob_match :: "string \<Rightarrow> bool" where
  "glob_match n =
     (take 8 n = ''episode_'' \<and> 8 \<le> length (drop 8 n) \<and>
      drop (length (drop 8 n) - 8) (drop 8 n) = ''.parquet'')"

definition glob_parquet :: "'c dir \<Rightarrow> string list" where
  "glob_parquet d = filter glob_match (map fst d)"

text \<open>\<^verbatim>\<open>str.split(sep)\<close> for a separator of one character.\<close>

fun split_on :: "char \<Rightarrow> string \<Rightarrow> string list" where
  "split_on c [] = [[]]"
| "split_on c (x # xs) =
     (if x = c then [] # split_on c xs
      else (case split_on c xs of [] \<Rightarrow> [[x]] | p # ps \<Rightarrow> (x # p) # ps))"

text \<open>\<^verbatim>\<open>xs[k]\<close> for \<open>k \<ge> 0\<close>: IndexError out of range.\<close>

definition item :: "'a list \<Rightarrow> nat \<Rightarrow> error + 'a" where
  "item xs k = (if k < length xs then Inr (xs ! k) else Inl IndexError)"

text \<open>
  \<^verbatim>\<open>int(s)\<close>, for a string whose characters are code points below 256. White
  space around the numeral is skipped: the characters 9 to 13 and 32, and the two
  Latin-1 spaces 133 and 160 (the characters 28 to 31, which \<^verbatim>\<open>str.strip\<close> would
  remove, are not white space here). One sign is allowed. The numeral is decimal digits,
  with single \<^verbatim>\<open>_\<close> allowed between two digits; in this range only the ASCII
  digits are decimal digits. Anything else is a ValueError.
\<close>

definition is_space :: "char \<Rightarrow> bool" where
  "is_space c =
     (let k = (of_char c :: nat) in (9 \<le> k \<and> k \<le> 13) \<or> k = 32 \<or> k = 133 \<or> k = 160)"

definition is_digit :: "char \<Rightarrow> bool" where
  "is_digit c = (let k = (of_char c :: nat) in 48 \<le> k \<and> k \<le> 57)"

definition digit_val :: "char \<Rightarrow> nat" where
  "digit_val c = of_char c - 48"

definition strip :: "string \<Rightarrow> string" where
  "strip s = rev (dropWhile is_space (rev (dropWhile is_space s)))"

definition digits_val :: "string \<Rightarrow> nat" where
  "digits_val ds = foldl (\<lambda>a c. 10 * a + digit_val c) 0 ds"

definition valid_numeral :: "string \<Rightarrow> bool" where
  "valid_numeral ds =
     (ds \<noteq> [] \<and> is_digit (hd ds) \<and> is_digit (last ds) \<and>
      list_all (\<lambda>c. is_digit c \<or> c = CHR ''_'') ds \<and>
      \<not> list_ex (\<lambda>(a, b). a = CHR ''_'' \<and> b = CHR ''_'') (zip ds (tl ds)))"

definition unsigned_int :: "string \<Rightarrow> error + nat" where
  "unsigned_int ds =
     (if valid_numeral ds then Inr (digits_val (filter (\<lambda>c. c \<noteq> CHR ''_'') ds))
      else Inl ValueError)"

definition py_int :: "string \<Rightarrow> error + int" where
  "py_int s =
     (case strip s of
        [] \<Rightarrow> Inl ValueError
      | c # cs \<Rightarrow>
          if c = CHR ''-'' then map_sum id (\<lambda>n. - int n) (unsigned_int cs)
          else if c = CHR ''+'' then map_sum id int (unsigned_int cs)
          else map_sum id int (unsigned_int (c # cs)))"

text \<open>\<^verbatim>\<open>int(f.name.split("_")[1].split(".")[0])\<close>\<close>

definition index_of_name :: "string \<Rightarrow> error + int" where
  "index_of_name n =
     (case item (split_on (CHR ''_'') n) 1 of
        Inl e \<Rightarrow> Inl e
      | Inr a \<Rightarrow>
          (case item (split_on (CHR ''.'') a) 0 of
             Inl e \<Rightarrow> Inl e
           | Inr b \<Rightarrow> py_int b))"

text \<open>The list comprehension of line 42: the first name that fails aborts the run.\<close>

fun parse_all :: "string list \<Rightarrow> error + int list" where
  "parse_all [] = Inr []"
| "parse_all (n # ns) =
     (case index_of_name n of
        Inl e \<Rightarrow> Inl e
      | Inr i \<Rightarrow> (case parse_all ns of Inl e \<Rightarrow> Inl e | Inr is \<Rightarrow> Inr (i # is)))"

section \<open>Metadata\<close>

text \<open>
  A JSON object after \<^verbatim>\<open>json.loads\<close> is a dict: a list of (key, value) in
  insertion order. A value is an integer or something that is not a number (string,
  null, array, object), kept as its text; fractional numbers and booleans are not
  modelled.
\<close>

datatype json = JInt int | JOther string

type_synonym entry = "(string \<times> json) list"

section \<open>The dataset\<close>

text \<open>
  The tabular directory \<^verbatim>\<open>data/chunk-000\<close>, the two camera-view directories
  under \<^verbatim>\<open>videos/chunk-000\<close> and the three files of \<^verbatim>\<open>meta\<close>, each stream
  as the list of its records. The metadata files are taken to exist and every line to be
  a JSON object; a directory that does not exist behaves as an empty one (the glob lists
  nothing, no file exists in it).
\<close>

record 'c dataset =
  data_dir :: "'c dir"
  laptop_dir :: "'c dir"
  phone_dir :: "'c dir"
  episodes_jsonl :: "entry list"
  episodes_stats_jsonl :: "entry list"
  info_json :: entry

section \<open>Step 1: removing files\<close>

definition unlink_if_exists :: "string \<Rightarrow> 'c dir \<Rightarrow> 'c dir" where
  "unlink_if_exists n d = (if exists_file d n then unlink n d else d)"

definition remove_episode :: "int \<Rightarrow> 'c dataset \<Rightarrow> 'c dataset" where
  "remove_episode ep ds =
     ds\<lparr>data_dir := unlink_if_exists (parquet_name ep) (data_dir ds),
        laptop_dir := unlink_if_exists (mp4_name ep) (laptop_dir ds),
        phone_dir := unlink_if_exists (mp4_name ep) (phone_dir ds)\<rparr>"

fun remove_files :: "int list \<Rightarrow> 'c dataset \<Rightarrow> 'c dataset" where
  "remove_files [] ds = ds"
| "remove_files (ep # eps) ds = remove_files eps (remove_episode ep ds)"

section \<open>Step 2: renaming the later episodes down\<close>

text \<open>
  The loop of lines 47 to 63 over the sorted indices of the tabular listing. The
  dictionary \<^verbatim>\<open>index_map\<close> that the loop fills is never read and is left out.
\<close>

text \<open>\<^verbatim>\<open>sum(1 for r in episodes_to_remove if r < idx)\<close>\<close>

definition decrement :: "int list \<Rightarrow> int \<Rightarrow> int" where
  "decrement eps idx = int (length (filter (\<lambda>r. r < idx) eps))"

definition new_index :: "int list \<Rightarrow> int \<Rightarrow> int" where
  "new_index eps idx = idx - decrement eps idx"

definition all_indices :: "'c dir \<Rightarrow> error + int list" where
  "all_indices d = map_sum id sort (parse_all (glob_parquet d))"

definition rename_video :: "platform \<Rightarrow> int \<Rightarrow> int \<Rightarrow> 'c dir \<Rightarrow> error + 'c dir" where
  "rename_video pf idx new_idx vdir =
     (if exists_file vdir (mp4_name idx)
      then rename pf (mp4_name idx) (mp4_name new_idx) vdir
      else Inr vdir)"

definition reindex_episode ::
  "platform \<Rightarrow> int list \<Rightarrow> int \<Rightarrow> 'c dataset \<Rightarrow> error + 'c dataset" where
  "reindex_episode pf eps idx ds =
     (let new_idx = idx - decrement eps idx in
      if new_idx \<noteq> idx then
        (case rename pf (parquet_name idx) (parquet_name new_idx) (data_dir ds) of
           Inl e \<Rightarrow> Inl e
         | Inr d \<Rightarrow>
             (case rename_video pf idx new_idx (laptop_dir ds) of
                Inl e \<Rightarrow> Inl e
              | Inr l \<Rightarrow>
                  (case rename_video pf idx new_idx (phone_dir ds) of
                     Inl e \<Rightarrow> Inl e
                   | Inr p \<Rightarrow> Inr (ds\<lparr>data_dir := d, laptop_dir := l, phone_dir := p\<rparr>))))
      else Inr ds)"

fun reindex_loop ::
  "platform \<Rightarrow> int list \<Rightarrow> int list \<Rightarrow> 'c dataset \<Rightarrow> error + 'c dataset" where
  "reindex_loop pf eps [] ds = Inr ds"
| "reindex_loop pf eps (idx # rest) ds =
     (case reindex_episode pf eps idx ds of
        Inl e \<Rightarrow> Inl e
      | Inr ds' \<Rightarrow> reindex_loop pf eps rest ds')"

section \<open>Step 3: metadata\<close>

text \<open>
  One line of a stream: \<open>Inr None\<close> is \<^verbatim>\<open>continue\<close> (the record is dropped),
  \<open>Inr (Some e)\<close> the record appended to \<^verbatim>\<open>lines\<close>. A record without the key
  raises KeyError; a value that is not a number raises TypeError (unhashable in the
  set test, or at the comparison or the subtraction).
\<close>

definition rewrite_entry :: "int list \<Rightarrow> entry \<Rightarrow> error + entry option" where
  "rewrite_entry eps e =
     (case map_of e ''episode_index'' of
        None \<Rightarrow> Inl KeyError
      | Some (JOther v) \<Rightarrow> Inl TypeError
      | Some (JInt ep_idx) \<Rightarrow>
          if ep_idx \<in> set eps then Inr None
          else Inr (Some (AList.update ''episode_index''
                            (JInt (ep_idx - decrement eps ep_idx)) e)))"

fun rewrite_stream :: "int list \<Rightarrow> entry list \<Rightarrow> error + entry list" where
  "rewrite_stream eps [] = Inr []"
| "rewrite_stream eps (e # es) =
     (case rewrite_entry eps e of
        Inl err \<Rightarrow> Inl err
      | Inr r \<Rightarrow>
          (case rewrite_stream eps es of
             Inl err \<Rightarrow> Inl err
           | Inr lines \<Rightarrow> Inr (case r of None \<Rightarrow> lines | Some e' \<Rightarrow> e' # lines)))"

definition update_info :: "int list \<Rightarrow> entry \<Rightarrow> error + entry" where
  "update_info eps info =
     (case map_of info ''total_episodes'' of
        None \<Rightarrow> Inl KeyError
      | Some (JOther v) \<Rightarrow> Inl TypeError
      | Some (JInt n) \<Rightarrow>
          Inr (AList.update ''total_episodes'' (JInt (n - int (length eps))) info))"

section \<open>The whole run\<close>

definition remove_and_reindex ::
  "platform \<Rightarrow> 'c dataset \<Rightarrow> int list \<Rightarrow> error + 'c dataset" where
  "remove_and_reindex pf ds episodes_to_remove =
     (let eps = sorted_list_of_set (set episodes_to_remove);
          ds1 = remove_files eps ds
      in case all_indices (data_dir ds1) of
           Inl e \<Rightarrow> Inl e
         | Inr idxs \<Rightarrow>
             (case reindex_loop pf eps idxs ds1 of
                Inl e \<Rightarrow> Inl e
              | Inr ds2 \<Rightarrow>
                  (case rewrite_stream eps (episodes_jsonl ds2) of
                     Inl e \<Rightarrow> Inl e
                   | Inr lines1 \<Rightarrow>
                       (case rewrite_stream eps (episodes_stats_jsonl ds2) of
                          Inl e \<Rightarrow> Inl e
                        | Inr lines2 \<Rightarrow>
                            (case update_info eps (info_json ds2) of
                               Inl e \<Rightarrow> Inl e
                             | Inr info \<Rightarrow>
                                 Inr (ds2\<lparr>episodes_jsonl := lines1,
                                          episodes_stats_jsonl := lines2,
                                          info_json := info\<rparr>))))))"

section \<open>Observations and well-formed inputs\<close>

definition episode_index :: "entry \<Rightarrow> int option" where
  "episode_index e =
     (case map_of e ''episode_index'' of Some (JInt i) \<Rightarrow> Some i | _ \<Rightarrow> None)"

definition total_episodes :: "'c dataset \<Rightarrow> int option" where
  "total_episodes ds =
     (case map_of (info_json ds) ''total_episodes'' of Some (JInt n) \<Rightarrow> Some n | _ \<Rightarrow> None)"

text \<open>
  A tabular directory as the file layout contract has it: no name twice, and every name
  the glob lists is \<^verbatim>\<open>episode_{index:06d}.parquet\<close> for the index it parses to.
\<close>

definition canonical_name :: "string \<Rightarrow> bool" where
  "canonical_name n =
     (case index_of_name n of Inl e \<Rightarrow> False | Inr i \<Rightarrow> n = parquet_name i)"

definition wf_data_dir :: "'c dir \<Rightarrow> bool" where
  "wf_data_dir d = (wf_dir d \<and> list_all canonical_name (glob_parquet d))"

text \<open>
  Metadata as the data model has it: every record carries an integer
  \<^verbatim>\<open>episode_index\<close>, the summary an integer \<^verbatim>\<open>total_episodes\<close>.
\<close>

definition wf_meta :: "'c dataset \<Rightarrow> bool" where
  "wf_meta ds =
     (list_all (\<lambda>e. episode_index e \<noteq> None) (episodes_jsonl ds) \<and>
      list_all (\<lambda>e. episode_index e \<noteq> None) (episodes_stats_jsonl ds) \<and>
      total_episodes ds \<noteq> None)"

section \<open>The metadata rewrite in the words of the specification\<close>

text \<open>
  Section 4.4 of the specification, for a removal set \<open>R\<close>: drop the records whose index
  is in \<open>R\<close>; in each record kept replace the index \<open>i\<close> by \<open>i\<close> minus the number of
  removed indices strictly less than \<open>i\<close>; keep the other fields and the order.
\<close>

definition spec_decrement :: "int set \<Rightarrow> int \<Rightarrow> int" where
  "spec_decrement R i = int (card {r \<in> R. r < i})"

definition spec_kept :: "int set \<Rightarrow> entry \<Rightarrow> bool" where
  "spec_kept R e = (case episode_index e of None \<Rightarrow> True | Some i \<Rightarrow> i \<notin> R)"

definition spec_rewrite_record :: "int set \<Rightarrow> entry \<Rightarrow> entry" where
  "spec_rewrite_record R e =
     (case episode_index e of
        None \<Rightarrow> e
      | Some i \<Rightarrow> AList.update ''episode_index'' (JInt (i - spec_decrement R i)) e)"

definition spec_metadata_rewrite :: "int set \<Rightarrow> entry list \<Rightarrow> entry list" where
  "spec_metadata_rewrite R es = map (spec_rewrite_record R) (filter (spec_kept R) es)"

section \<open>Example datasets\<close>

text \<open>
  Five episodes, 0 to 4, each with its tabular file, its two videos and its two metadata
  records; the payloads are numbers that tell the files apart.
\<close>

definition example_dataset :: "nat dataset" where
  "example_dataset =
     \<lparr>data_dir = [(parquet_name 0, 100), (parquet_name 1, 101), (parquet_name 2, 102),
                  (parquet_name 3, 103), (parquet_name 4, 104)],
      laptop_dir = [(mp4_name 0, 200), (mp4_name 1, 201), (mp4_name 2, 202),
                    (mp4_name 3, 203), (mp4_name 4, 204)],
      phone_dir = [(mp4_name 0, 300), (mp4_name 1, 301), (mp4_name 2, 302),
                   (mp4_name 3, 303), (mp4_name 4, 304)],
      episodes_jsonl =
        [[(''episode_index'', JInt 0), (''length'', JInt 50)],
         [(''episode_index'', JInt 1), (''length'', JInt 51)],
         [(''episode_index'', JInt 2), (''length'', JInt 52)],
         [(''episode_index'', JInt 3), (''length'', JInt 53)],
         [(''episode_index'', JInt 4), (''length'', JInt 54)]],
      episodes_stats_jsonl =
        [[(''episode_index'', JInt 0), (''stats'', JOther ''s0'')],
         [(''episode_index'', JInt 1), (''stats'', JOther ''s1'')],
         [(''episode_index'', JInt 2), (''stats'', JOther ''s2'')],
         [(''episode_index'', JInt 3), (''stats'', JOther ''s3'')],
         [(''episode_index'', JInt 4), (''stats'', JOther ''s4'')]],
      info_json = [(''codebase_version'', JOther ''v2.1''), (''total_episodes'', JInt 5)]\<rparr>"

text \<open>What the run leaves of it when the removal list is \<open>[1, 3]\<close>.\<close>

definition example_without_1_3 :: "nat dataset" where
  "example_without_1_3 =
     \<lparr>data_dir = [(parquet_name 0, 100), (parquet_name 1, 102), (parquet_name 2, 104)],
      laptop_dir = [(mp4_name 0, 200), (mp4_name 1, 202), (mp4_name 2, 204)],
      phone_dir = [(mp4_name 0, 300), (mp4_name 1, 302), (mp4_name 2, 304)],
      episodes_jsonl =
        [[(''episode_index'', JInt 0), (''length'', JInt 50)],
         [(''episode_index'', JInt 1), (''length'', JInt 52)],
         [(''episode_index'', JInt 2), (''length'', JInt 54)]],
      episodes_stats_jsonl =
        [[(''episode_index'', JInt 0), (''stats'', JOther ''s0'')],
         [(''episode_index'', JInt 1), (''stats'', JOther ''s2'')],
         [(''episode_index'', JInt 2), (''stats'', JOther ''s4'')]],
      info_json = [(''codebase_version'', JOther ''v2.1''), (''total_episodes'', JInt 3)]\<rparr>"

text \<open>What the run leaves of it when the removal list is \<open>[1, 1, 5]\<close>.\<close>

definition example_without_1_5 :: "nat dataset" where
  "example_without_1_5 =
     \<lparr>data_dir = [(parquet_name 0, 100), (parquet_name 1, 102), (parquet_name 2, 103),
                  (parquet_name 3, 104)],
      laptop_dir = [(mp4_name 0, 200), (mp4_name 1, 202), (mp4_name 2, 203),
                    (mp4_name 3, 204)],
      phone_dir = [(mp4_name 0, 300), (mp4_name 1, 302), (mp4_name 2, 303),
                   (mp4_name 3, 304)],
      episodes_jsonl =
        [[(''episode_index'', JInt 0), (''length'', JInt 50)],
         [(''episode_index'', JInt 1), (''length'', JInt 52)],
         [(''episode_index'', JInt 2), (''length'', JInt 53)],
         [(''episode_index'', JInt 3), (''length'', JInt 54)]],
      episodes_stats_jsonl =
        [[(''episode_index'', JInt 0), (''stats'', JOther ''s0'')],
         [(''episode_index'', JInt 1), (''stats'', JOther ''s2'')],
         [(''episode_index'', JInt 2), (''stats'', JOther ''s3'')],
         [(''episode_index'', JInt 3), (''stats'', JOther ''s4'')]],
      info_json = [(''codebase_version'', JOther ''v2.1''), (''total_episodes'', JInt 3)]\<rparr>"

text \<open>
  Episodes 0 and 2 only: index 1 has no file. And what the run leaves of it when the
  removal list is \<open>[1]\<close>.
\<close>

definition gap_dataset :: "nat dataset" where
  "gap_dataset =
     \<lparr>data_dir = [(parquet_name 0, 100), (parquet_name 2, 102)],
      laptop_dir = [(mp4_name 0, 200), (mp4_name 2, 202)],
      phone_dir = [(mp4_name 0, 300), (mp4_name 2, 302)],
      episodes_jsonl =
        [[(''episode_index'', JInt 0), (''length'', JInt 50)],
         [(''episode_index'', JInt 2), (''length'', JInt 52)]],
      episodes_stats_jsonl =
        [[(''episode_index'', JInt 0), (''stats'', JOther ''s0'')],
         [(''episode_index'', JInt 2), (''stats'', JOther ''s2'')]],
      info_json = [(''total_episodes'', JInt 2)]\<rparr>"

definition gap_without_1 :: "nat dataset" where
  "gap_without_1 =
     \<lparr>data_dir = [(parquet_name 0, 100), (parquet_name 1, 102)],
      laptop_dir = [(mp4_name 0, 200), (mp4_name 1, 202)],
      phone_dir = [(mp4_name 0, 300), (mp4_name 1, 302)],
      episodes_jsonl =
        [[(''episode_index'', JInt 0), (''length'', JInt 50)],
         [(''episode_index'', JInt 1), (''length'', JInt 52)]],
      episodes_stats_jsonl =
        [[(''episode_index'', JInt 0), (''stats'', JOther ''s0'')],
         [(''episode_index'', JInt 1), (''stats'', JOther ''s2'')]],
      info_json = [(''total_episodes'', JInt 1)]\<rparr>"

text \<open>What the run leaves of the five episodes when the removal list is \<open>[7, 5]\<close>.\<close>

definition example_without_5_7 :: "nat dataset" where
  "example_without_5_7 =
     example_dataset\<lparr>info_json :=
       [(''codebase_version'', JOther ''v2.1''), (''total_episodes'', JInt 3)]\<rparr>"

text \<open>
  Episodes 0, 1 and 3, and two videos without a tabular file: index 2 in the laptop
  view and index 7 in the phone view. And what a run on Unix leaves of it when the
  removal list is \<open>[1]\<close>.
\<close>

definition orphan_dataset :: "nat dataset" where
  "orphan_dataset =
     \<lparr>data_dir = [(parquet_name 0, 100), (parquet_name 1, 101), (parquet_name 3, 103)],
      laptop_dir = [(mp4_name 0, 200), (mp4_name 1, 201), (mp4_name 2, 202),
                    (mp4_name 3, 203)],
      phone_dir = [(mp4_name 0, 300), (mp4_name 1, 301), (mp4_name 3, 303),
                   (mp4_name 7, 307)],
      episodes_jsonl =
        [[(''episode_index'', JInt 0)], [(''episode_index'', JInt 1)],
         [(''episode_index'', JInt 3)]],
      episodes_stats_jsonl =
        [[(''episode_index'', JInt 0)], [(''episode_index'', JInt 1)],
         [(''episode_index'', JInt 3)]],
      info_json = [(''total_episodes'', JInt 3)]\<rparr>"

definition orphan_without_1 :: "nat dataset" where
  "orphan_without_1 =
     \<lparr>data_dir = [(parquet_name 0, 100), (parquet_name 2, 103)],
      laptop_dir = [(mp4_name 0, 200), (mp4_name 2, 203)],
      phone_dir = [(mp4_name 0, 300), (mp4_name 7, 307), (mp4_name 2, 303)],
      episodes_jsonl =
        [[(''episode_index'', JInt 0)], [(''episode_index'', JInt 2)]],
      episodes_stats_jsonl =
        [[(''episode_index'', JInt 0)], [(''episode_index'', JInt 2)]],
      info_json = [(''total_episodes'', JInt 2)]\<rparr>"

text \<open>What the run leaves of the five episodes when the removal list is \<open>[-1]\<close>.\<close>

definition example_shifted :: "nat dataset" where
  "example_shifted =
     \<lparr>data_dir = [(parquet_name (- 1), 100), (parquet_name 0, 101), (parquet_name 1, 102),
                  (parquet_name 2, 103), (parquet_name 3, 104)],
      laptop_dir = [(mp4_name (- 1), 200), (mp4_name 0, 201), (mp4_name 1, 202),
                    (mp4_name 2, 203), (mp4_name 3, 204)],
      phone_dir = [(mp4_name (- 1), 300), (mp4_name 0, 301), (mp4_name 1, 302),
                   (mp4_name 2, 303), (mp4_name 3, 304)],
      episodes_jsonl =
        [[(''episode_index'', JInt (- 1)), (''length'', JInt 50)],
         [(''episode_index'', JInt 0), (''length'', JInt 51)],
         [(''episode_index'', JInt 1), (''length'', JInt 52)],
         [(''episode_index'', JInt 2), (''length'', JInt 53)],
         [(''episode_index'', JInt 3), (''length'', JInt 54)]],
      episodes_stats_jsonl =
        [[(''episode_index'', JInt (- 1)), (''stats'', JOther ''s0'')],
         [(''episode_index'', JInt 0), (''stats'', JOther ''s1'')],
         [(''episode_index'', JInt 1), (''stats'', JOther ''s2'')],
         [(''episode_index'', JInt 2), (''stats'', JOther ''s3'')],
         [(''episode_index'', JInt 3), (''stats'', JOther ''s4'')]],
      info_json = [(''codebase_version'', JOther ''v2.1''), (''total_episodes'', JInt 4)]\<rparr>"

section \<open>File names: formatting and parsing are inverse\<close>

declare dec_digits.simps [simp del]

lemma of_char_digit_char: "k < 10 \<Longrightarrow> (of_char (digit_char k) :: nat) = 48 + k"
  by (simp add: digit_char_def of_char_of)

lemma is_digit_digit_char: "k < 10 \<Longrightarrow> is_digit (digit_char k)"
  by (simp add: is_digit_def of_char_digit_char)

lemma digit_val_digit_char: "k < 10 \<Longrightarrow> digit_val (digit_char k) = k"
  by (simp add: digit_val_def of_char_digit_char)

lemma dec_digits_digits: "list_all is_digit (dec_digits n)"
proof (induction n rule: dec_digits.induct)
  case (1 n)
  show ?case
  proof (cases "n < 10")
    case True
    then show ?thesis by (simp add: dec_digits.simps [of n] is_digit_digit_char)
  next
    case False
    with "1" show ?thesis by (simp add: dec_digits.simps [of n] is_digit_digit_char)
  qed
qed

lemma dec_digits_nonempty: "dec_digits n \<noteq> []"
  by (subst dec_digits.simps) simp

lemma digits_val_snoc: "digits_val (ds @ [c]) = 10 * digits_val ds + digit_val c"
  by (simp add: digits_val_def)

lemma digits_val_dec_digits: "digits_val (dec_digits n) = n"
proof (induction n rule: dec_digits.induct)
  case (1 n)
  show ?case
  proof (cases "n < 10")
    case True
    then show ?thesis
      by (simp add: dec_digits.simps [of n] digits_val_def digit_val_digit_char)
  next
    case False
    with "1" show ?thesis
      by (simp add: dec_digits.simps [of n] digits_val_snoc digit_val_digit_char)
  qed
qed

lemma is_digit_zero: "is_digit (CHR ''0'')"
  by (simp add: is_digit_def)

lemma digit_val_zero: "digit_val (CHR ''0'') = 0"
  by (simp add: digit_val_def)

lemma foldl_zeros:
  "foldl (\<lambda>a c. 10 * a + digit_val c) 0 (replicate k (CHR ''0'')) = 0"
  by (induction k) (simp_all add: digit_val_zero)

lemma digits_val_zero_pad: "digits_val (zero_pad w s) = digits_val s"
  by (simp add: digits_val_def zero_pad_def foldl_zeros)

lemma zero_pad_digits: "list_all is_digit s \<Longrightarrow> list_all is_digit (zero_pad w s)"
  by (auto simp: zero_pad_def list_all_iff is_digit_zero)

lemma zero_pad_nonempty: "s \<noteq> [] \<Longrightarrow> zero_pad w s \<noteq> []"
  by (simp add: zero_pad_def)

lemma is_digit_not_underscore: "is_digit c \<Longrightarrow> c \<noteq> CHR ''_''"
  by (auto simp: is_digit_def)

lemma digits_valid_numeral:
  assumes "ds \<noteq> []" and "list_all is_digit ds"
  shows "valid_numeral ds" and "filter (\<lambda>c. c \<noteq> CHR ''_'') ds = ds"
proof -
  from assms have h: "is_digit (hd ds)" "is_digit (last ds)"
    by (simp_all add: list_all_iff)
  from assms(2) have nu: "\<forall>c \<in> set ds. c \<noteq> CHR ''_''"
    using is_digit_not_underscore by (auto simp: list_all_iff)
  have "\<not> list_ex (\<lambda>(a, b). a = CHR ''_'' \<and> b = CHR ''_'') (zip ds (tl ds))"
    using nu by (auto simp: list_ex_iff dest: set_zip_leftD)
  with assms h show "valid_numeral ds"
    by (auto simp: valid_numeral_def list_all_iff)
  from nu show "filter (\<lambda>c. c \<noteq> CHR ''_'') ds = ds"
    by (simp add: filter_id_conv)
qed

lemma unsigned_int_zero_pad:
  "unsigned_int (zero_pad w (dec_digits n)) = Inr n"
proof -
  let ?ds = "zero_pad w (dec_digits n)"
  have ne: "?ds \<noteq> []" by (simp add: zero_pad_nonempty dec_digits_nonempty)
  have dg: "list_all is_digit ?ds" by (simp add: zero_pad_digits dec_digits_digits)
  from digits_valid_numeral [OF ne dg] show ?thesis
    by (simp add: unsigned_int_def digits_val_zero_pad digits_val_dec_digits)
qed

lemma is_digit_not_space: "is_digit c \<Longrightarrow> \<not> is_space c"
  by (auto simp: is_digit_def is_space_def Let_def)

lemma is_digit_not_sign: "is_digit c \<Longrightarrow> c \<noteq> CHR ''-'' \<and> c \<noteq> CHR ''+'' \<and> c \<noteq> CHR ''_'' \<and> c \<noteq> CHR ''.''"
  by (auto simp: is_digit_def)

lemma strip_id: "\<forall>c \<in> set s. \<not> is_space c \<Longrightarrow> strip s = s"
proof -
  assume a: "\<forall>c \<in> set s. \<not> is_space c"
  have d: "dropWhile is_space t = t" if "\<forall>c \<in> set t. \<not> is_space c" for t
    using that by (cases t) auto
  from a have "dropWhile is_space s = s" by (rule d)
  moreover from a have "dropWhile is_space (rev s) = rev s" by (intro d) simp
  ultimately show ?thesis by (simp add: strip_def)
qed

lemma fmt_06d_chars: "c \<in> set (fmt_06d i) \<Longrightarrow> is_digit c \<or> c = CHR ''-''"
  using zero_pad_digits [OF dec_digits_digits]
  by (auto simp: fmt_06d_def list_all_iff split: if_splits)

lemma fmt_06d_no_space: "\<forall>c \<in> set (fmt_06d i). \<not> is_space c"
  using fmt_06d_chars is_digit_not_space by (fastforce simp: is_space_def)

lemma py_int_fmt_06d: "py_int (fmt_06d i) = Inr i"
proof (cases "i < 0")
  case True
  have "strip (fmt_06d i) = fmt_06d i" by (rule strip_id [OF fmt_06d_no_space])
  with True show ?thesis
    by (simp add: py_int_def fmt_06d_def unsigned_int_zero_pad)
next
  case False
  let ?s = "zero_pad 6 (dec_digits (nat i))"
  have s: "strip (fmt_06d i) = fmt_06d i" by (rule strip_id [OF fmt_06d_no_space])
  have ne: "?s \<noteq> []" by (simp add: zero_pad_nonempty dec_digits_nonempty)
  then obtain c cs where cs: "?s = c # cs" by (cases ?s) auto
  have "list_all is_digit ?s" by (simp add: zero_pad_digits dec_digits_digits)
  with cs have "is_digit c" by simp
  then have "c \<noteq> CHR ''-''" "c \<noteq> CHR ''+''" using is_digit_not_sign by auto
  moreover have "unsigned_int (c # cs) = Inr (nat i)"
    using unsigned_int_zero_pad [of 6 "nat i"] cs by simp
  ultimately show ?thesis using False s cs
    by (simp add: py_int_def fmt_06d_def)
qed

lemma fmt_06d_inj: "fmt_06d i = fmt_06d j \<Longrightarrow> i = j"
  by (metis py_int_fmt_06d sum.inject(2))

lemma split_on_no_sep: "c \<notin> set s \<Longrightarrow> split_on c (s @ c # t) = s # split_on c t"
  by (induction s) auto

lemma split_on_none: "c \<notin> set s \<Longrightarrow> split_on c s = [s]"
  by (induction s) auto

lemma fmt_06d_no_underscore: "CHR ''_'' \<notin> set (fmt_06d i)"
  using fmt_06d_chars [of "CHR ''_''" i] by (auto simp: is_digit_def)

lemma fmt_06d_no_dot: "CHR ''.'' \<notin> set (fmt_06d i)"
  using fmt_06d_chars [of "CHR ''.''" i] by (auto simp: is_digit_def)

lemma index_of_parquet_name: "index_of_name (parquet_name i) = Inr i"
proof -
  have 1: "split_on (CHR ''_'') (parquet_name i) = [''episode'', fmt_06d i @ ''.parquet'']"
    using split_on_no_sep [of "CHR ''_''" "''episode''" "fmt_06d i @ ''.parquet''"]
      split_on_none [of "CHR ''_''" "fmt_06d i @ ''.parquet''"] fmt_06d_no_underscore [of i]
    by (simp add: parquet_name_def)
  have 2: "split_on (CHR ''.'') (fmt_06d i @ ''.parquet'') = [fmt_06d i, ''parquet'']"
    using split_on_no_sep [of "CHR ''.''" "fmt_06d i" "''parquet''"] fmt_06d_no_dot [of i]
    by simp
  show ?thesis
    by (simp add: index_of_name_def 1 2 item_def py_int_fmt_06d)
qed

lemma parquet_name_inj [simp]: "parquet_name i = parquet_name j \<longleftrightarrow> i = j"
  by (metis index_of_parquet_name sum.inject(2))

lemma mp4_name_inj [simp]: "mp4_name i = mp4_name j \<longleftrightarrow> i = j"
  by (auto simp: mp4_name_def dest: fmt_06d_inj)

lemma glob_match_parquet_name [simp]: "glob_match (parquet_name i)"
  by (simp add: glob_match_def parquet_name_def)

section \<open>The metadata rewrite\<close>

lemma decrement_as_card: "distinct eps \<Longrightarrow> decrement eps i = spec_decrement (set eps) i"
proof -
  assume "distinct eps"
  then have "length (filter (\<lambda>r. r < i) eps) = card ({r. r < i} \<inter> set eps)"
    by (rule distinct_length_filter)
  moreover have "{r. r < i} \<inter> set eps = {r \<in> set eps. r < i}" by auto
  ultimately show ?thesis by (simp add: decrement_def spec_decrement_def)
qed

lemma decrement_sorted_list_of_set:
  "decrement (sorted_list_of_set (set eps)) i = spec_decrement (set eps) i"
  using decrement_as_card [of "sorted_list_of_set (set eps)" i] by simp

lemma rewrite_entry_Inr:
  assumes "rewrite_entry eps e = Inr r"
  shows "episode_index e \<noteq> None"
    and "r = (if spec_kept (set eps) e
              then Some (AList.update ''episode_index''
                     (JInt (the (episode_index e) - decrement eps (the (episode_index e)))) e)
              else None)"
  using assms
  by (auto simp: rewrite_entry_def episode_index_def spec_kept_def
      split: option.splits json.splits if_splits)

lemma rewrite_entry_total:
  "episode_index e \<noteq> None \<Longrightarrow> \<exists>r. rewrite_entry eps e = Inr r"
  by (auto simp: rewrite_entry_def episode_index_def split: option.splits json.splits)

lemma rewrite_stream_total:
  "list_all (\<lambda>e. episode_index e \<noteq> None) es \<Longrightarrow> \<exists>ls. rewrite_stream eps es = Inr ls"
proof (induction es)
  case Nil
  then show ?case by simp
next
  case (Cons e es)
  then obtain r ls where "rewrite_entry eps e = Inr r" "rewrite_stream eps es = Inr ls"
    using rewrite_entry_total [of e eps] by auto
  then show ?case by simp
qed

lemma rewrite_stream_spec:
  "rewrite_stream (sorted_list_of_set (set eps)) es = Inr ls \<Longrightarrow>
   ls = spec_metadata_rewrite (set eps) es"
proof (induction es arbitrary: ls)
  case Nil
  then show ?case by (simp add: spec_metadata_rewrite_def)
next
  case (Cons e es)
  let ?eps = "sorted_list_of_set (set eps)"
  from Cons.prems obtain r ls' where
    r: "rewrite_entry ?eps e = Inr r" and ls': "rewrite_stream ?eps es = Inr ls'"
    and ls: "ls = (case r of None \<Rightarrow> ls' | Some e' \<Rightarrow> e' # ls')"
    by (auto split: sum.splits)
  from Cons.IH [OF ls'] have ih: "ls' = spec_metadata_rewrite (set eps) es" .
  from rewrite_entry_Inr [OF r] obtain i where i: "episode_index e = Some i"
    and rr: "r = (if spec_kept (set eps) e
              then Some (AList.update ''episode_index'' (JInt (i - decrement ?eps i)) e)
              else None)"
    by auto
  show ?case
    using ls ih rr i
    by (simp add: spec_metadata_rewrite_def spec_rewrite_record_def
        decrement_sorted_list_of_set)
qed

lemma spec_rewrite_record_other_fields:
  "k \<noteq> ''episode_index'' \<Longrightarrow> map_of (spec_rewrite_record R e) k = map_of e k"
  by (simp add: spec_rewrite_record_def update_conv' split: option.splits)

lemma spec_rewrite_record_index:
  "episode_index e = Some i \<Longrightarrow>
   episode_index (spec_rewrite_record R e) = Some (i - spec_decrement R i)"
  by (simp add: spec_rewrite_record_def episode_index_def update_conv')

lemma map_of_Some_key: "map_of al k = Some v \<Longrightarrow> k \<in> fst ` set al"
  by (metis domI dom_map_of_conv_image_fst)

lemma spec_rewrite_record_keys:
  "map fst (spec_rewrite_record R e) = map fst e"
  by (auto simp: spec_rewrite_record_def episode_index_def update_keys
      split: option.splits json.splits dest: map_of_Some_key)

lemma remove_episode_meta [simp]:
  "episodes_jsonl (remove_episode ep ds) = episodes_jsonl ds"
  "episodes_stats_jsonl (remove_episode ep ds) = episodes_stats_jsonl ds"
  "info_json (remove_episode ep ds) = info_json ds"
  by (simp_all add: remove_episode_def)

lemma remove_files_meta [simp]:
  "episodes_jsonl (remove_files eps ds) = episodes_jsonl ds"
  "episodes_stats_jsonl (remove_files eps ds) = episodes_stats_jsonl ds"
  "info_json (remove_files eps ds) = info_json ds"
  by (induction eps arbitrary: ds) simp_all

lemma reindex_episode_meta:
  "reindex_episode pf eps idx ds = Inr ds' \<Longrightarrow>
   episodes_jsonl ds' = episodes_jsonl ds \<and>
   episodes_stats_jsonl ds' = episodes_stats_jsonl ds \<and> info_json ds' = info_json ds"
  by (auto simp: reindex_episode_def Let_def split: if_splits sum.splits)

lemma reindex_loop_meta:
  "reindex_loop pf eps xs ds = Inr ds' \<Longrightarrow>
   episodes_jsonl ds' = episodes_jsonl ds \<and>
   episodes_stats_jsonl ds' = episodes_stats_jsonl ds \<and> info_json ds' = info_json ds"
proof (induction xs arbitrary: ds)
  case Nil
  then show ?case by simp
next
  case (Cons x xs)
  then obtain ds1 where 1: "reindex_episode pf eps x ds = Inr ds1"
    and 2: "reindex_loop pf eps xs ds1 = Inr ds'"
    by (auto split: sum.splits)
  from reindex_episode_meta [OF 1] Cons.IH [OF 2] show ?case by simp
qed

text \<open>The run, when it returns, in its five stages.\<close>

lemma remove_and_reindex_Inr:
  assumes "remove_and_reindex pf ds eps0 = Inr ds'"
  obtains idxs ds2 lines1 lines2 info where
    "all_indices (data_dir (remove_files (sorted_list_of_set (set eps0)) ds)) = Inr idxs"
    "reindex_loop pf (sorted_list_of_set (set eps0)) idxs
       (remove_files (sorted_list_of_set (set eps0)) ds) = Inr ds2"
    "rewrite_stream (sorted_list_of_set (set eps0)) (episodes_jsonl ds) = Inr lines1"
    "rewrite_stream (sorted_list_of_set (set eps0)) (episodes_stats_jsonl ds) = Inr lines2"
    "update_info (sorted_list_of_set (set eps0)) (info_json ds) = Inr info"
    "ds' = ds2\<lparr>episodes_jsonl := lines1, episodes_stats_jsonl := lines2, info_json := info\<rparr>"
proof -
  let ?eps = "sorted_list_of_set (set eps0)"
  from assms obtain idxs ds2 lines1 lines2 info where
    a: "all_indices (data_dir (remove_files ?eps ds)) = Inr idxs"
    and b: "reindex_loop pf ?eps idxs (remove_files ?eps ds) = Inr ds2"
    and c: "rewrite_stream ?eps (episodes_jsonl ds2) = Inr lines1"
    and d: "rewrite_stream ?eps (episodes_stats_jsonl ds2) = Inr lines2"
    and e: "update_info ?eps (info_json ds2) = Inr info"
    and f: "ds' = ds2\<lparr>episodes_jsonl := lines1, episodes_stats_jsonl := lines2, info_json := info\<rparr>"
    by (auto simp: remove_and_reindex_def Let_def split: sum.splits)
  from reindex_loop_meta [OF b] have
    "episodes_jsonl ds2 = episodes_jsonl ds" "episodes_stats_jsonl ds2 = episodes_stats_jsonl ds"
    "info_json ds2 = info_json ds" by simp_all
  with a b c d e f that show thesis by simp
qed

lemma update_info_Inr:
  "update_info eps info = Inr info' \<Longrightarrow>
   \<exists>n. map_of info ''total_episodes'' = Some (JInt n) \<and>
       info' = AList.update ''total_episodes'' (JInt (n - int (length eps))) info"
  by (auto simp: update_info_def split: option.splits json.splits)

lemma run_total_episodes:
  assumes "remove_and_reindex pf ds eps = Inr ds'"
  shows "\<exists>n. total_episodes ds = Some n \<and>
             total_episodes ds' = Some (n - int (length (sorted_list_of_set (set eps))))"
proof -
  let ?eps = "sorted_list_of_set (set eps)"
  from assms obtain ds2 lines1 lines2 info where
    e: "update_info ?eps (info_json ds) = Inr info"
    and f: "ds' = ds2\<lparr>episodes_jsonl := lines1, episodes_stats_jsonl := lines2, info_json := info\<rparr>"
    by (rule remove_and_reindex_Inr)
  from update_info_Inr [OF e] obtain n where
    n: "map_of (info_json ds) ''total_episodes'' = Some (JInt n)"
    and i: "info = AList.update ''total_episodes'' (JInt (n - int (length ?eps))) (info_json ds)"
    by auto
  with f show ?thesis
    by (simp add: total_episodes_def update_conv')
qed

lemma run_metadata:
  assumes "remove_and_reindex pf ds eps = Inr ds'"
  shows "episodes_jsonl ds' = spec_metadata_rewrite (set eps) (episodes_jsonl ds)"
    and "episodes_stats_jsonl ds' = spec_metadata_rewrite (set eps) (episodes_stats_jsonl ds)"
proof -
  let ?eps = "sorted_list_of_set (set eps)"
  from assms obtain ds2 lines1 lines2 info where
    c: "rewrite_stream ?eps (episodes_jsonl ds) = Inr lines1"
    and d: "rewrite_stream ?eps (episodes_stats_jsonl ds) = Inr lines2"
    and f: "ds' = ds2\<lparr>episodes_jsonl := lines1, episodes_stats_jsonl := lines2, info_json := info\<rparr>"
    by (rule remove_and_reindex_Inr)
  from rewrite_stream_spec [OF c] f
  show "episodes_jsonl ds' = spec_metadata_rewrite (set eps) (episodes_jsonl ds)" by simp
  from rewrite_stream_spec [OF d] f
  show "episodes_stats_jsonl ds' = spec_metadata_rewrite (set eps) (episodes_stats_jsonl ds)"
    by simp
qed

lemma rewrite_stream_Inr_indexed:
  "rewrite_stream eps es = Inr ls \<Longrightarrow> list_all (\<lambda>e. episode_index e \<noteq> None) es"
proof (induction es arbitrary: ls)
  case Nil
  then show ?case by simp
next
  case (Cons e es)
  from Cons.prems obtain r ls' where
    r: "rewrite_entry eps e = Inr r" and ls': "rewrite_stream eps es = Inr ls'"
    by (auto split: sum.splits)
  from rewrite_entry_Inr(1) [OF r] Cons.IH [OF ls'] show ?case by simp
qed

lemma run_metadata_indexed:
  assumes "remove_and_reindex pf ds eps = Inr ds'"
  shows "list_all (\<lambda>e. episode_index e \<noteq> None) (episodes_jsonl ds)"
    and "list_all (\<lambda>e. episode_index e \<noteq> None) (episodes_stats_jsonl ds)"
proof -
  let ?eps = "sorted_list_of_set (set eps)"
  from assms obtain lines1 lines2 where
    c: "rewrite_stream ?eps (episodes_jsonl ds) = Inr lines1"
    and d: "rewrite_stream ?eps (episodes_stats_jsonl ds) = Inr lines2"
    by (rule remove_and_reindex_Inr)
  from rewrite_stream_Inr_indexed [OF c]
  show "list_all (\<lambda>e. episode_index e \<noteq> None) (episodes_jsonl ds)" .
  from rewrite_stream_Inr_indexed [OF d]
  show "list_all (\<lambda>e. episode_index e \<noteq> None) (episodes_stats_jsonl ds)" .
qed

section \<open>The example runs\<close>

lemma example_run_1_3:
  "remove_and_reindex Posix example_dataset [1, 3] = Inr example_without_1_3"
  by code_simp

lemma example_run_3_1_1:
  "remove_and_reindex Posix example_dataset [3, 1, 1] = Inr example_without_1_3"
  by code_simp

lemma example_run_1_1_5:
  "remove_and_reindex Posix example_dataset [1, 1, 5] = Inr example_without_1_5"
  by code_simp

section \<open>Directories\<close>

lemma exists_file_iff: "exists_file d n \<longleftrightarrow> n \<in> fst ` set d"
  by (simp add: exists_file_def map_of_eq_None_iff)

lemma unlink_if_exists_delete: "unlink_if_exists n d = AList.delete n d"
  by (simp add: unlink_if_exists_def unlink_def exists_file_iff)

lemma keys_delete: "map fst (AList.delete k d) = filter (\<lambda>n. n \<noteq> k) (map fst d)"
  by (induction d) auto

lemma names_delete: "fst ` set (AList.delete k d) = fst ` set d - {k}"
  by (induction d) auto

lemma rename_Inr:
  assumes "rename pf src dst d = Inr d'"
  obtains c where "map_of d src = Some c" "d' = AList.update dst c (AList.delete src d)"
  using assms by (auto simp: rename_def split: option.splits if_splits)

lemma rename_Posix:
  "map_of d src = Some c \<Longrightarrow>
   rename Posix src dst d = Inr (AList.update dst c (AList.delete src d))"
  by (simp add: rename_def)

lemma rename_names:
  assumes "rename pf src dst d = Inr d'"
  shows "fst ` set d' = insert dst (fst ` set d - {src})"
    and "src \<in> fst ` set d"
proof -
  from assms obtain c where c: "map_of d src = Some c"
    and d': "d' = AList.update dst c (AList.delete src d)"
    by (rule rename_Inr)
  have "fst ` set (AList.delete src d) = fst ` set d - {src}"
    by (rule names_delete)
  with d' show "fst ` set d' = insert dst (fst ` set d - {src})"
    by (simp add: dom_update)
  from c show "src \<in> fst ` set d" by (rule map_of_Some_key)
qed

lemma rename_map_of:
  assumes "rename pf src dst d = Inr d'"
  shows "map_of d' n =
           (if n = dst then map_of d src else if n = src then None else map_of d n)"
proof -
  from assms obtain c where c: "map_of d src = Some c"
    and d': "d' = AList.update dst c (AList.delete src d)"
    by (rule rename_Inr)
  then show ?thesis by (simp add: update_conv' delete_conv')
qed

lemma rename_wf_dir:
  assumes "rename pf src dst d = Inr d'" and "wf_dir d"
  shows "wf_dir d'"
proof -
  from assms(1) obtain c where "d' = AList.update dst c (AList.delete src d)"
    by (rule rename_Inr)
  with assms(2) show ?thesis
    by (simp add: wf_dir_def distinct_update distinct_delete)
qed

section \<open>Step 1 on the three directories\<close>

lemma remove_episode_dirs:
  "data_dir (remove_episode ep ds) = AList.delete (parquet_name ep) (data_dir ds)"
  "laptop_dir (remove_episode ep ds) = AList.delete (mp4_name ep) (laptop_dir ds)"
  "phone_dir (remove_episode ep ds) = AList.delete (mp4_name ep) (phone_dir ds)"
  by (simp_all add: remove_episode_def unlink_if_exists_delete)

lemma remove_files_keys:
  "map fst (data_dir (remove_files eps ds)) =
     filter (\<lambda>n. n \<notin> parquet_name ` set eps) (map fst (data_dir ds))"
  "map fst (laptop_dir (remove_files eps ds)) =
     filter (\<lambda>n. n \<notin> mp4_name ` set eps) (map fst (laptop_dir ds))"
  "map fst (phone_dir (remove_files eps ds)) =
     filter (\<lambda>n. n \<notin> mp4_name ` set eps) (map fst (phone_dir ds))"
proof (induction eps arbitrary: ds)
  case Nil
  {
    case 1 show ?case by simp
  next
    case 2 show ?case by simp
  next
    case 3 show ?case by simp
  }
next
  case (Cons ep eps)
  {
    case 1
    show ?case
      by (simp add: Cons.IH(1) remove_episode_dirs keys_delete conj_commute)
  next
    case 2
    show ?case
      by (simp add: Cons.IH(2) remove_episode_dirs keys_delete conj_commute)
  next
    case 3
    show ?case
      by (simp add: Cons.IH(3) remove_episode_dirs keys_delete conj_commute)
  }
qed

lemma remove_files_map_of:
  "map_of (data_dir (remove_files eps ds)) n =
     (if n \<in> parquet_name ` set eps then None else map_of (data_dir ds) n)"
  "map_of (laptop_dir (remove_files eps ds)) n =
     (if n \<in> mp4_name ` set eps then None else map_of (laptop_dir ds) n)"
  "map_of (phone_dir (remove_files eps ds)) n =
     (if n \<in> mp4_name ` set eps then None else map_of (phone_dir ds) n)"
proof (induction eps arbitrary: ds)
  case Nil
  {
    case 1 show ?case by simp
  next
    case 2 show ?case by simp
  next
    case 3 show ?case by simp
  }
next
  case (Cons ep eps)
  {
    case 1
    show ?case by (simp add: Cons.IH(1) remove_episode_dirs delete_conv')
  next
    case 2
    show ?case by (simp add: Cons.IH(2) remove_episode_dirs delete_conv')
  next
    case 3
    show ?case by (simp add: Cons.IH(3) remove_episode_dirs delete_conv')
  }
qed

lemma remove_files_wf_dir: "wf_dir (data_dir ds) \<Longrightarrow> wf_dir (data_dir (remove_files eps ds))"
  by (simp add: wf_dir_def remove_files_keys)

lemma remove_files_glob:
  "glob_parquet (data_dir (remove_files eps ds)) =
     filter (\<lambda>n. n \<notin> parquet_name ` set eps) (glob_parquet (data_dir ds))"
  by (simp add: glob_parquet_def remove_files_keys conj_commute)

lemma remove_files_wf_data_dir:
  "wf_data_dir (data_dir ds) \<Longrightarrow> wf_data_dir (data_dir (remove_files eps ds))"
  by (simp add: wf_data_dir_def remove_files_wf_dir remove_files_glob list_all_iff)

section \<open>Listing the tabular directory\<close>

lemma canonical_nameD:
  "canonical_name n \<Longrightarrow> \<exists>i. index_of_name n = Inr i \<and> n = parquet_name i"
  by (auto simp: canonical_name_def split: sum.splits)

lemma canonical_parquet_name: "canonical_name (parquet_name i)"
  by (simp add: canonical_name_def index_of_parquet_name)

lemma parse_all_names: "parse_all (map parquet_name js) = Inr js"
  by (induction js) (simp_all add: index_of_parquet_name)

lemma canonical_names_are_parquet_names:
  "list_all canonical_name ns \<Longrightarrow> \<exists>js. ns = map parquet_name js"
proof (induction ns)
  case Nil
  then show ?case by simp
next
  case (Cons n ns)
  then obtain i js where "n = parquet_name i" "ns = map parquet_name js"
    using canonical_nameD [of n] by auto
  then have "n # ns = map parquet_name (i # js)" by simp
  then show ?case by (rule exI)
qed

lemma glob_parquet_set: "set (glob_parquet d) = {n \<in> fst ` set d. glob_match n}"
  by (auto simp: glob_parquet_def)

lemma all_indices_wf:
  assumes "wf_data_dir d"
  obtains xs where "all_indices d = Inr xs" "sorted xs" "distinct xs"
    "set (glob_parquet d) = parquet_name ` set xs"
    "\<forall>i. i \<in> set xs \<longleftrightarrow> exists_file d (parquet_name i)"
proof -
  from assms have wf: "distinct (map fst d)" and can: "list_all canonical_name (glob_parquet d)"
    by (simp_all add: wf_data_dir_def wf_dir_def)
  from canonical_names_are_parquet_names [OF can] obtain js where
    js: "glob_parquet d = map parquet_name js" by blast
  have "distinct (glob_parquet d)" using wf by (simp add: glob_parquet_def)
  with js have dis: "distinct js" by (simp add: distinct_map)
  have 1: "all_indices d = Inr (sort js)"
    by (simp add: all_indices_def js parse_all_names)
  have 2: "set (glob_parquet d) = parquet_name ` set (sort js)"
    by (simp add: js)
  have 3: "i \<in> set (sort js) \<longleftrightarrow> exists_file d (parquet_name i)" for i
  proof -
    have "exists_file d (parquet_name i) \<longleftrightarrow> parquet_name i \<in> set (glob_parquet d)"
      by (simp add: exists_file_iff glob_parquet_set)
    also have "\<dots> \<longleftrightarrow> i \<in> set js" by (auto simp: js)
    finally show ?thesis by simp
  qed
  from 1 2 3 dis that show thesis by simp
qed

section \<open>The index map\<close>

lemma decrement_nonneg: "0 \<le> decrement eps i"
  by (simp add: decrement_def)

lemma new_index_le: "new_index eps i \<le> i"
  by (simp add: new_index_def decrement_def)

lemma new_index_fixed_iff: "new_index eps i = i \<longleftrightarrow> (\<forall>r \<in> set eps. i \<le> r)"
  by (auto simp: new_index_def decrement_def filter_empty_conv not_less)

lemma decrement_step:
  assumes "distinct eps" and "i \<notin> set eps" and "i < j"
  shows "decrement eps j \<le> decrement eps i + (j - i - 1)"
proof -
  have sub: "{r \<in> set eps. r < j} \<subseteq> {r \<in> set eps. r < i} \<union> {i<..<j}"
  proof
    fix r
    assume "r \<in> {r \<in> set eps. r < j}"
    then have r: "r \<in> set eps" "r < j" by auto
    with assms(2) have "r \<noteq> i" by auto
    then have "r < i \<or> i < r" by linarith
    with r show "r \<in> {r \<in> set eps. r < i} \<union> {i<..<j}" by auto
  qed
  have "card {r \<in> set eps. r < j} \<le> card ({r \<in> set eps. r < i} \<union> {i<..<j})"
    by (rule card_mono [OF _ sub]) simp
  also have "\<dots> \<le> card {r \<in> set eps. r < i} + card {i<..<j}"
    by (rule card_Un_le)
  finally have "int (card {r \<in> set eps. r < j}) \<le>
      int (card {r \<in> set eps. r < i}) + int (card {i<..<j})"
    by linarith
  moreover have "int (card {i<..<j}) = j - i - 1" using assms(3) by simp
  ultimately show ?thesis
    using decrement_as_card [OF assms(1)] by (simp add: spec_decrement_def)
qed

lemma new_index_strict_mono:
  "distinct eps \<Longrightarrow> i \<notin> set eps \<Longrightarrow> i < j \<Longrightarrow> new_index eps i < new_index eps j"
  using decrement_step [of eps i j] by (simp add: new_index_def)

lemma new_index_inj_on: "distinct eps \<Longrightarrow> inj_on (new_index eps) (- set eps)"
proof (rule inj_onI)
  fix i j
  assume d: "distinct eps" and i: "i \<in> - set eps" and j: "j \<in> - set eps"
    and e: "new_index eps i = new_index eps j"
  show "i = j"
  proof (rule ccontr)
    assume "i \<noteq> j"
    then consider "i < j" | "j < i" by linarith
    then show False
    proof cases
      case 1
      from new_index_strict_mono [OF d _ 1] i e show False by simp
    next
      case 2
      from new_index_strict_mono [OF d _ 2] j e show False by simp
    qed
  qed
qed

lemma decrement_below:
  assumes "distinct eps" and "\<forall>r \<in> set eps. 0 \<le> r"
  shows "decrement eps (int M) = int (card (set eps \<inter> {0..<int M}))"
proof -
  have "{r \<in> set eps. r < int M} = set eps \<inter> {0..<int M}"
    using assms(2) by auto
  then show ?thesis
    using decrement_as_card [OF assms(1), of "int M"] by (simp add: spec_decrement_def)
qed

lemma card_removed_le: "card (set eps \<inter> {0..<int M}) \<le> M"
proof -
  have "card (set eps \<inter> {0..<int M}) \<le> card {0..<int M}"
    by (rule card_mono) auto
  then show ?thesis by simp
qed

lemma new_index_dense:
  assumes "distinct eps" and "\<forall>r \<in> set eps. 0 \<le> r"
  shows "new_index eps ` ({0..<int M} - set eps) =
           {0..<int M - int (card (set eps \<inter> {0..<int M}))}"
proof (induction M)
  case 0
  show ?case by simp
next
  case (Suc M)
  let ?c = "card (set eps \<inter> {0..<int M})"
  have ins: "{0..<int (Suc M)} = insert (int M) {0..<int M}" by auto
  have le: "int ?c \<le> int M" using card_removed_le [of eps M] by simp
  show ?case
  proof (cases "int M \<in> set eps")
    case True
    then have "set eps \<inter> {0..<int (Suc M)} = insert (int M) (set eps \<inter> {0..<int M})"
      unfolding ins by blast
    then have "card (set eps \<inter> {0..<int (Suc M)}) = Suc ?c" by simp
    moreover have "{0..<int (Suc M)} - set eps = {0..<int M} - set eps"
      unfolding ins using True by blast
    ultimately show ?thesis using Suc.IH by simp
  next
    case False
    then have "set eps \<inter> {0..<int (Suc M)} = set eps \<inter> {0..<int M}"
      unfolding ins by blast
    then have c: "card (set eps \<inter> {0..<int (Suc M)}) = ?c" by simp
    have "{0..<int (Suc M)} - set eps = insert (int M) ({0..<int M} - set eps)"
      unfolding ins using False by blast
    then have "new_index eps ` ({0..<int (Suc M)} - set eps) =
        insert (new_index eps (int M)) {0..<int M - int ?c}"
      using Suc.IH by simp
    also have "new_index eps (int M) = int M - int ?c"
      by (simp add: new_index_def decrement_below [OF assms])
    also have "insert (int M - int ?c) {0..<int M - int ?c} = {0..<int (Suc M) - int ?c}"
      using le by auto
    finally show ?thesis by (simp only: c)
  qed
qed

section \<open>One iteration of the renaming loop\<close>

lemma reindex_episode_fixed:
  "new_index eps x = x \<Longrightarrow> reindex_episode pf eps x ds = Inr ds"
  by (simp add: reindex_episode_def new_index_def)

lemma reindex_episode_Inr:
  assumes "reindex_episode pf eps x ds = Inr ds1" and "new_index eps x \<noteq> x"
  obtains d l p where
    "rename pf (parquet_name x) (parquet_name (new_index eps x)) (data_dir ds) = Inr d"
    "rename_video pf x (new_index eps x) (laptop_dir ds) = Inr l"
    "rename_video pf x (new_index eps x) (phone_dir ds) = Inr p"
    "ds1 = ds\<lparr>data_dir := d, laptop_dir := l, phone_dir := p\<rparr>"
  using assms
  by (auto simp: reindex_episode_def new_index_def Let_def split: sum.splits if_splits)

lemma rename_video_map_of:
  assumes "rename_video pf x y v = Inr v'"
  shows "map_of v' n =
           (if exists_file v (mp4_name x)
            then (if n = mp4_name y then map_of v (mp4_name x)
                  else if n = mp4_name x then None else map_of v n)
            else map_of v n)"
  using assms rename_map_of [of pf "mp4_name x" "mp4_name y" v v' n]
  by (auto simp: rename_video_def split: if_splits)

lemma rename_video_Posix: "\<exists>v'. rename_video Posix x y v = Inr v'"
  by (auto simp: rename_video_def rename_def exists_file_def)

lemma reindex_episode_data_names:
  assumes "reindex_episode pf eps x ds = Inr ds1"
    and "parquet_name x \<in> fst ` set (data_dir ds)"
  shows "fst ` set (data_dir ds1) =
           insert (parquet_name (new_index eps x)) (fst ` set (data_dir ds) - {parquet_name x})"
proof (cases "new_index eps x = x")
  case True
  with assms show ?thesis by (auto simp: reindex_episode_fixed)
next
  case False
  from assms(1) False obtain d l p where
    d: "rename pf (parquet_name x) (parquet_name (new_index eps x)) (data_dir ds) = Inr d"
    and ds1: "ds1 = ds\<lparr>data_dir := d, laptop_dir := l, phone_dir := p\<rparr>"
    by (rule reindex_episode_Inr)
  from rename_names(1) [OF d] ds1 show ?thesis by simp
qed

lemma reindex_episode_data_exists:
  assumes "reindex_episode pf eps x ds = Inr ds1" and "new_index eps x \<noteq> x"
  shows "exists_file (data_dir ds) (parquet_name x)"
proof -
  from assms obtain d where
    "rename pf (parquet_name x) (parquet_name (new_index eps x)) (data_dir ds) = Inr d"
    by (rule reindex_episode_Inr)
  from rename_names(2) [OF this] show ?thesis by (simp add: exists_file_iff)
qed

lemma reindex_episode_wf_dir:
  assumes "reindex_episode pf eps x ds = Inr ds1" and "wf_dir (data_dir ds)"
  shows "wf_dir (data_dir ds1)"
proof (cases "new_index eps x = x")
  case True
  with assms show ?thesis by (simp add: reindex_episode_fixed)
next
  case False
  from assms(1) False obtain d l p where
    d: "rename pf (parquet_name x) (parquet_name (new_index eps x)) (data_dir ds) = Inr d"
    and ds1: "ds1 = ds\<lparr>data_dir := d, laptop_dir := l, phone_dir := p\<rparr>"
    by (rule reindex_episode_Inr)
  from rename_wf_dir [OF d assms(2)] ds1 show ?thesis by simp
qed

lemma reindex_episode_videos:
  assumes "reindex_episode pf eps x ds = Inr ds1"
  shows "map_of (laptop_dir ds1) n =
           (if new_index eps x \<noteq> x \<and> exists_file (laptop_dir ds) (mp4_name x)
            then (if n = mp4_name (new_index eps x) then map_of (laptop_dir ds) (mp4_name x)
                  else if n = mp4_name x then None else map_of (laptop_dir ds) n)
            else map_of (laptop_dir ds) n)"
    and "map_of (phone_dir ds1) n =
           (if new_index eps x \<noteq> x \<and> exists_file (phone_dir ds) (mp4_name x)
            then (if n = mp4_name (new_index eps x) then map_of (phone_dir ds) (mp4_name x)
                  else if n = mp4_name x then None else map_of (phone_dir ds) n)
            else map_of (phone_dir ds) n)"
proof -
  show "map_of (laptop_dir ds1) n =
           (if new_index eps x \<noteq> x \<and> exists_file (laptop_dir ds) (mp4_name x)
            then (if n = mp4_name (new_index eps x) then map_of (laptop_dir ds) (mp4_name x)
                  else if n = mp4_name x then None else map_of (laptop_dir ds) n)
            else map_of (laptop_dir ds) n)"
  proof (cases "new_index eps x = x")
    case True
    with assms show ?thesis by (simp add: reindex_episode_fixed)
  next
    case False
    from assms False obtain d l p where
      l: "rename_video pf x (new_index eps x) (laptop_dir ds) = Inr l"
      and ds1: "ds1 = ds\<lparr>data_dir := d, laptop_dir := l, phone_dir := p\<rparr>"
      by (rule reindex_episode_Inr)
    from rename_video_map_of [OF l, of n] ds1 False show ?thesis by simp
  qed
  show "map_of (phone_dir ds1) n =
           (if new_index eps x \<noteq> x \<and> exists_file (phone_dir ds) (mp4_name x)
            then (if n = mp4_name (new_index eps x) then map_of (phone_dir ds) (mp4_name x)
                  else if n = mp4_name x then None else map_of (phone_dir ds) n)
            else map_of (phone_dir ds) n)"
  proof (cases "new_index eps x = x")
    case True
    with assms show ?thesis by (simp add: reindex_episode_fixed)
  next
    case False
    from assms False obtain d l p where
      p: "rename_video pf x (new_index eps x) (phone_dir ds) = Inr p"
      and ds1: "ds1 = ds\<lparr>data_dir := d, laptop_dir := l, phone_dir := p\<rparr>"
      by (rule reindex_episode_Inr)
    from rename_video_map_of [OF p, of n] ds1 False show ?thesis by simp
  qed
qed

lemma reindex_episode_Posix_total:
  assumes "exists_file (data_dir ds) (parquet_name x)"
  shows "\<exists>ds1. reindex_episode Posix eps x ds = Inr ds1"
proof -
  from assms obtain c where c: "map_of (data_dir ds) (parquet_name x) = Some c"
    by (auto simp: exists_file_def)
  obtain l where l: "rename_video Posix x (x - decrement eps x) (laptop_dir ds) = Inr l"
    using rename_video_Posix by blast
  obtain p where p: "rename_video Posix x (x - decrement eps x) (phone_dir ds) = Inr p"
    using rename_video_Posix by blast
  show ?thesis
    by (simp add: reindex_episode_def Let_def rename_Posix [OF c] l p)
qed

section \<open>The renaming loop\<close>

lemma reindex_loop_Cons_Inr:
  assumes "reindex_loop pf eps (x # xs) ds = Inr ds'"
  obtains ds1 where "reindex_episode pf eps x ds = Inr ds1"
    "reindex_loop pf eps xs ds1 = Inr ds'"
  using assms by (auto split: sum.splits)

lemma reindex_loop_fixed:
  "\<forall>x \<in> set xs. new_index eps x = x \<Longrightarrow> reindex_loop pf eps xs ds = Inr ds"
  by (induction xs) (simp_all add: reindex_episode_fixed)

lemma reindex_loop_wf_dir:
  "reindex_loop pf eps xs ds = Inr ds' \<Longrightarrow> wf_dir (data_dir ds) \<Longrightarrow> wf_dir (data_dir ds')"
proof (induction xs arbitrary: ds)
  case Nil
  then show ?case by simp
next
  case (Cons x xs)
  from Cons.prems(1) obtain ds1 where 1: "reindex_episode pf eps x ds = Inr ds1"
    and 2: "reindex_loop pf eps xs ds1 = Inr ds'"
    by (rule reindex_loop_Cons_Inr)
  from Cons.IH [OF 2 reindex_episode_wf_dir [OF 1 Cons.prems(2)]] show ?case .
qed

lemma reindex_loop_data_names:
  assumes "reindex_loop pf eps xs ds = Inr ds'"
    and "sorted xs" and "distinct xs"
    and "parquet_name ` set xs \<subseteq> fst ` set (data_dir ds)"
  shows "fst ` set (data_dir ds') =
           (fst ` set (data_dir ds) - parquet_name ` set xs) \<union>
           parquet_name ` new_index eps ` set xs"
  using assms
proof (induction xs arbitrary: ds)
  case Nil
  then show ?case by simp
next
  case (Cons x xs)
  from Cons.prems(1) obtain ds1 where 1: "reindex_episode pf eps x ds = Inr ds1"
    and 2: "reindex_loop pf eps xs ds1 = Inr ds'"
    by (rule reindex_loop_Cons_Inr)
  from Cons.prems(4) have x: "parquet_name x \<in> fst ` set (data_dir ds)" by simp
  note n1 = reindex_episode_data_names [OF 1 x]
  from Cons.prems(2,3) have lt: "\<forall>y \<in> set xs. x < y" by (auto simp: less_le)
  have sub: "parquet_name ` set xs \<subseteq> fst ` set (data_dir ds1)"
  proof
    fix n
    assume "n \<in> parquet_name ` set xs"
    then obtain y where y: "y \<in> set xs" "n = parquet_name y" by auto
    with lt have "x < y" by simp
    then have "parquet_name y \<noteq> parquet_name x" by simp
    moreover from Cons.prems(4) y have "n \<in> fst ` set (data_dir ds)" by auto
    ultimately show "n \<in> fst ` set (data_dir ds1)" using y by (simp add: n1)
  qed
  from Cons.prems(2,3) have "sorted xs" "distinct xs" by simp_all
  note ih = Cons.IH [OF 2 this sub]
  have notin: "parquet_name (new_index eps x) \<notin> parquet_name ` set xs"
    using lt new_index_le [of eps x] by fastforce
  show ?case
    unfolding ih n1 using notin by auto
qed

lemma reindex_loop_Posix_total:
  assumes "distinct xs" and "\<forall>x \<in> set xs. exists_file (data_dir ds) (parquet_name x)"
  shows "\<exists>ds'. reindex_loop Posix eps xs ds = Inr ds'"
  using assms
proof (induction xs arbitrary: ds)
  case Nil
  then show ?case by simp
next
  case (Cons x xs)
  from Cons.prems(2) have ex: "exists_file (data_dir ds) (parquet_name x)" by simp
  then obtain ds1 where 1: "reindex_episode Posix eps x ds = Inr ds1"
    using reindex_episode_Posix_total by blast
  from ex have x: "parquet_name x \<in> fst ` set (data_dir ds)" by (simp add: exists_file_iff)
  note n1 = reindex_episode_data_names [OF 1 x]
  have "\<forall>y \<in> set xs. exists_file (data_dir ds1) (parquet_name y)"
  proof
    fix y
    assume y: "y \<in> set xs"
    with Cons.prems(1) have "parquet_name y \<noteq> parquet_name x" by auto
    moreover from Cons.prems(2) y have "parquet_name y \<in> fst ` set (data_dir ds)"
      by (simp add: exists_file_iff)
    ultimately show "exists_file (data_dir ds1) (parquet_name y)"
      by (simp add: exists_file_iff n1)
  qed
  with Cons.IH [of ds1] Cons.prems(1) obtain ds' where
    "reindex_loop Posix eps xs ds1 = Inr ds'" by auto
  with 1 show ?case by simp
qed

section \<open>The video directories through the loop\<close>

text \<open>
  Both camera views are treated alike; \<open>sel\<close> stands for either directory.
\<close>

lemma reindex_episode_video:
  assumes "reindex_episode pf eps x ds = Inr ds1"
    and "sel = laptop_dir \<or> sel = phone_dir"
  shows "map_of (sel ds1) n =
           (if new_index eps x \<noteq> x \<and> exists_file (sel ds) (mp4_name x)
            then (if n = mp4_name (new_index eps x) then map_of (sel ds) (mp4_name x)
                  else if n = mp4_name x then None else map_of (sel ds) n)
            else map_of (sel ds) n)"
  using assms(2) reindex_episode_videos [OF assms(1), of n] by auto

lemma reindex_loop_video_frame:
  assumes "reindex_loop pf eps xs ds = Inr ds'"
    and "sel = laptop_dir \<or> sel = phone_dir"
    and "sorted xs" and "distinct xs"
    and "\<forall>x \<in> set xs. n \<noteq> mp4_name x"
    and "\<forall>x \<in> set xs. new_index eps x \<noteq> x \<and> exists_file (sel ds) (mp4_name x) \<longrightarrow>
           n \<noteq> mp4_name (new_index eps x)"
  shows "map_of (sel ds') n = map_of (sel ds) n"
  using assms
proof (induction xs arbitrary: ds)
  case Nil
  then show ?case by simp
next
  case (Cons x xs)
  from Cons.prems(1) obtain ds1 where 1: "reindex_episode pf eps x ds = Inr ds1"
    and 2: "reindex_loop pf eps xs ds1 = Inr ds'"
    by (rule reindex_loop_Cons_Inr)
  note step = reindex_episode_video [OF 1 Cons.prems(2)]
  from Cons.prems(5,6) have here: "map_of (sel ds1) n = map_of (sel ds) n"
    by (simp add: step)
  from Cons.prems(3,4) have lt: "\<forall>y \<in> set xs. x < y" by (auto simp: less_le)
  have later: "\<forall>y \<in> set xs. new_index eps y \<noteq> y \<and> exists_file (sel ds1) (mp4_name y) \<longrightarrow>
      n \<noteq> mp4_name (new_index eps y)"
  proof (intro ballI impI)
    fix y
    assume y: "y \<in> set xs"
      and m: "new_index eps y \<noteq> y \<and> exists_file (sel ds1) (mp4_name y)"
    from lt y have "x < y" by simp
    with new_index_le [of eps x] have "y \<noteq> new_index eps x" "y \<noteq> x" by simp_all
    with m have "exists_file (sel ds) (mp4_name y)"
      by (simp add: exists_file_def step [of "mp4_name y"] split: if_splits)
    with Cons.prems(6) y m show "n \<noteq> mp4_name (new_index eps y)" by simp
  qed
  from Cons.prems(3,4,5) have "sorted xs" "distinct xs" "\<forall>x \<in> set xs. n \<noteq> mp4_name x"
    by simp_all
  from Cons.IH [OF 2 Cons.prems(2) this later] here show ?case by simp
qed

lemma reindex_loop_video_vacated:
  assumes "reindex_loop pf eps xs ds = Inr ds'"
    and "sel = laptop_dir \<or> sel = phone_dir"
    and "sorted xs" and "distinct xs"
    and "z \<in> set xs" and "new_index eps z \<noteq> z"
    and "\<forall>y \<in> set xs. new_index eps y \<noteq> z"
  shows "\<not> exists_file (sel ds') (mp4_name z)"
  using assms
proof (induction xs arbitrary: ds)
  case Nil
  then show ?case by simp
next
  case (Cons x xs)
  from Cons.prems(1) obtain ds1 where 1: "reindex_episode pf eps x ds = Inr ds1"
    and 2: "reindex_loop pf eps xs ds1 = Inr ds'"
    by (rule reindex_loop_Cons_Inr)
  from Cons.prems(3,4) have srt: "sorted xs" "distinct xs" by simp_all
  from Cons.prems(7) have tgt: "\<forall>y \<in> set xs. new_index eps y \<noteq> z" by simp
  show ?case
  proof (cases "x = z")
    case True
    with Cons.prems(6) have gone: "map_of (sel ds1) (mp4_name z) = None"
      by (simp add: reindex_episode_video [OF 1 Cons.prems(2)] exists_file_def)
    from True Cons.prems(4) have a: "\<forall>x \<in> set xs. mp4_name z \<noteq> mp4_name x" by auto
    from tgt have b: "\<forall>x \<in> set xs.
        new_index eps x \<noteq> x \<and> exists_file (sel ds1) (mp4_name x) \<longrightarrow>
        mp4_name z \<noteq> mp4_name (new_index eps x)" by auto
    from reindex_loop_video_frame [OF 2 Cons.prems(2) srt a b] gone
    show ?thesis by (simp add: exists_file_def)
  next
    case False
    with Cons.prems(5) have "z \<in> set xs" by simp
    from Cons.IH [OF 2 Cons.prems(2) srt this Cons.prems(6) tgt] show ?thesis .
  qed
qed

lemma reindex_loop_video_stays:
  assumes "reindex_loop pf eps xs ds = Inr ds'"
    and "sel = laptop_dir \<or> sel = phone_dir"
    and "\<forall>x \<in> set xs. n \<noteq> mp4_name x"
    and "exists_file (sel ds) n"
  shows "exists_file (sel ds') n"
  using assms
proof (induction xs arbitrary: ds)
  case Nil
  then show ?case by simp
next
  case (Cons x xs)
  from Cons.prems(1) obtain ds1 where 1: "reindex_episode pf eps x ds = Inr ds1"
    and 2: "reindex_loop pf eps xs ds1 = Inr ds'"
    by (rule reindex_loop_Cons_Inr)
  from Cons.prems(3) have "\<forall>x \<in> set xs. n \<noteq> mp4_name x" by simp
  moreover from Cons.prems(3,4) have "exists_file (sel ds1) n"
    by (simp add: exists_file_def reindex_episode_video [OF 1 Cons.prems(2)])
  ultimately show ?case by (rule Cons.IH [OF 2 Cons.prems(2)])
qed

section \<open>The whole run\<close>

lemma present_after_removal:
  "exists_file (data_dir (remove_files eps ds)) (parquet_name i) \<longleftrightarrow>
   exists_file (data_dir ds) (parquet_name i) \<and> i \<notin> set eps"
  by (auto simp: exists_file_def remove_files_map_of)

lemma update_info_total:
  "total_episodes ds \<noteq> None \<Longrightarrow> \<exists>info. update_info eps (info_json ds) = Inr info"
  by (auto simp: total_episodes_def update_info_def split: option.splits json.splits)

text \<open>
  On a well-formed dataset the listing parses, and the run is the loop over the present,
  not removed indices in increasing order, followed by the metadata rewrite.
\<close>

lemma run_Inr_wf:
  assumes "remove_and_reindex pf ds eps0 = Inr ds'" and "wf_data_dir (data_dir ds)"
  obtains xs ds2 where
    "sorted xs" "distinct xs"
    "\<forall>i. i \<in> set xs \<longleftrightarrow> exists_file (data_dir ds) (parquet_name i) \<and> i \<notin> set eps0"
    "set (glob_parquet (data_dir (remove_files (sorted_list_of_set (set eps0)) ds))) =
       parquet_name ` set xs"
    "reindex_loop pf (sorted_list_of_set (set eps0)) xs
       (remove_files (sorted_list_of_set (set eps0)) ds) = Inr ds2"
    "data_dir ds' = data_dir ds2" "laptop_dir ds' = laptop_dir ds2"
    "phone_dir ds' = phone_dir ds2"
proof -
  let ?eps = "sorted_list_of_set (set eps0)"
  let ?ds1 = "remove_files ?eps ds"
  from assms(1) obtain idxs ds2 lines1 lines2 info where
    a: "all_indices (data_dir ?ds1) = Inr idxs"
    and b: "reindex_loop pf ?eps idxs ?ds1 = Inr ds2"
    and f: "ds' = ds2\<lparr>episodes_jsonl := lines1, episodes_stats_jsonl := lines2,
              info_json := info\<rparr>"
    by (rule remove_and_reindex_Inr)
  from remove_files_wf_data_dir [OF assms(2)] have "wf_data_dir (data_dir ?ds1)" .
  then obtain xs where xs: "all_indices (data_dir ?ds1) = Inr xs" "sorted xs" "distinct xs"
    "set (glob_parquet (data_dir ?ds1)) = parquet_name ` set xs"
    "\<forall>i. i \<in> set xs \<longleftrightarrow> exists_file (data_dir ?ds1) (parquet_name i)"
    by (rule all_indices_wf)
  from a xs(1) have "idxs = xs" by simp
  with b have b': "reindex_loop pf ?eps xs ?ds1 = Inr ds2" by simp
  have "\<forall>i. i \<in> set xs \<longleftrightarrow> exists_file (data_dir ds) (parquet_name i) \<and> i \<notin> set eps0"
    using xs(5) by (simp add: present_after_removal)
  with xs(2-4) b' f that show thesis by simp
qed

lemma run_data_glob:
  assumes "remove_and_reindex pf ds eps0 = Inr ds'" and "wf_data_dir (data_dir ds)"
  shows "set (glob_parquet (data_dir ds')) =
           parquet_name ` new_index (sorted_list_of_set (set eps0)) `
             {i. exists_file (data_dir ds) (parquet_name i) \<and> i \<notin> set eps0}"
    and "wf_dir (data_dir ds')"
proof -
  let ?eps = "sorted_list_of_set (set eps0)"
  let ?ds1 = "remove_files ?eps ds"
  from assms obtain xs ds2 where xs: "sorted xs" "distinct xs"
    and mem: "\<forall>i. i \<in> set xs \<longleftrightarrow> exists_file (data_dir ds) (parquet_name i) \<and> i \<notin> set eps0"
    and glob: "set (glob_parquet (data_dir ?ds1)) = parquet_name ` set xs"
    and loop: "reindex_loop pf ?eps xs ?ds1 = Inr ds2"
    and d: "data_dir ds' = data_dir ds2"
    by (rule run_Inr_wf)
  from glob have sub: "parquet_name ` set xs \<subseteq> fst ` set (data_dir ?ds1)"
    by (auto simp: glob_parquet_set)
  note names = reindex_loop_data_names [OF loop xs sub]
  have "set (glob_parquet (data_dir ds2)) = parquet_name ` new_index ?eps ` set xs"
  proof -
    have "{n \<in> fst ` set (data_dir ?ds1) - parquet_name ` set xs. glob_match n} = {}"
      using glob by (auto simp: glob_parquet_set)
    moreover have "{n \<in> parquet_name ` new_index ?eps ` set xs. glob_match n} =
        parquet_name ` new_index ?eps ` set xs"
      by auto
    ultimately show ?thesis
      unfolding glob_parquet_set names by blast
  qed
  moreover have "set xs = {i. exists_file (data_dir ds) (parquet_name i) \<and> i \<notin> set eps0}"
    using mem by auto
  ultimately show "set (glob_parquet (data_dir ds')) =
      parquet_name ` new_index ?eps `
        {i. exists_file (data_dir ds) (parquet_name i) \<and> i \<notin> set eps0}"
    using d by simp
  from assms(2) have "wf_dir (data_dir ?ds1)"
    by (simp add: wf_data_dir_def remove_files_wf_dir)
  from reindex_loop_wf_dir [OF loop this] d show "wf_dir (data_dir ds')" by simp
qed

lemma remove_files_video:
  "sel = laptop_dir \<or> sel = phone_dir \<Longrightarrow>
   map_of (sel (remove_files eps ds)) n =
     (if n \<in> mp4_name ` set eps then None else map_of (sel ds) n)"
  using remove_files_map_of(2,3) [of eps ds n] by auto

lemma remove_files_data_absent:
  "\<forall>r \<in> set eps. \<not> exists_file (data_dir ds) (parquet_name r) \<Longrightarrow>
   data_dir (remove_files eps ds) = data_dir ds"
proof (induction eps arbitrary: ds)
  case Nil
  then show ?case by simp
next
  case (Cons ep eps)
  then have "data_dir (remove_episode ep ds) = data_dir ds"
    by (simp add: remove_episode_dirs exists_file_iff)
  with Cons show ?case by simp
qed

lemma dense_wf_data_dir:
  assumes "wf_dir d" and "set (glob_parquet d) = parquet_name ` S"
  shows "wf_data_dir d"
  using assms by (auto simp: wf_data_dir_def list_all_iff canonical_parquet_name)

lemma dense_present:
  assumes "set (glob_parquet d) = parquet_name ` S"
  shows "exists_file d (parquet_name i) \<longleftrightarrow> i \<in> S"
proof -
  have "exists_file d (parquet_name i) \<longleftrightarrow> parquet_name i \<in> set (glob_parquet d)"
    by (simp add: exists_file_iff glob_parquet_set)
  with assms show ?thesis by auto
qed

text \<open>Once the loop has returned, the rest of the run cannot fail on well-formed metadata.\<close>

lemma run_after_loop:
  assumes "wf_meta ds"
    and "all_indices (data_dir (remove_files (sorted_list_of_set (set eps0)) ds)) = Inr xs"
    and "reindex_loop pf (sorted_list_of_set (set eps0)) xs
           (remove_files (sorted_list_of_set (set eps0)) ds) = Inr ds2"
  shows "\<exists>ds'. remove_and_reindex pf ds eps0 = Inr ds' \<and> data_dir ds' = data_dir ds2 \<and>
           laptop_dir ds' = laptop_dir ds2 \<and> phone_dir ds' = phone_dir ds2"
proof -
  let ?eps = "sorted_list_of_set (set eps0)"
  from reindex_loop_meta [OF assms(3)] have m: "episodes_jsonl ds2 = episodes_jsonl ds"
    "episodes_stats_jsonl ds2 = episodes_stats_jsonl ds" "info_json ds2 = info_json ds"
    by simp_all
  from assms(1) obtain lines1 lines2 info where
    "rewrite_stream ?eps (episodes_jsonl ds) = Inr lines1"
    "rewrite_stream ?eps (episodes_stats_jsonl ds) = Inr lines2"
    "update_info ?eps (info_json ds) = Inr info"
    using rewrite_stream_total [of "episodes_jsonl ds" ?eps]
      rewrite_stream_total [of "episodes_stats_jsonl ds" ?eps] update_info_total [of ds ?eps]
    by (auto simp: wf_meta_def)
  with assms(2,3) m show ?thesis
    by (simp add: remove_and_reindex_def Let_def)
qed

lemma run_Posix_total:
  assumes "wf_data_dir (data_dir ds)" and "wf_meta ds"
  shows "\<exists>ds'. remove_and_reindex Posix ds eps0 = Inr ds'"
proof -
  let ?eps = "sorted_list_of_set (set eps0)"
  let ?ds1 = "remove_files ?eps ds"
  from remove_files_wf_data_dir [OF assms(1)] have "wf_data_dir (data_dir ?ds1)" .
  then obtain xs where xs: "all_indices (data_dir ?ds1) = Inr xs" "distinct xs"
    "\<forall>i. i \<in> set xs \<longleftrightarrow> exists_file (data_dir ?ds1) (parquet_name i)"
    by (rule all_indices_wf)
  from xs(2,3) obtain ds2 where loop: "reindex_loop Posix ?eps xs ?ds1 = Inr ds2"
    using reindex_loop_Posix_total [of xs ?ds1 ?eps] by auto
  from run_after_loop [OF assms(2) xs(1) loop] show ?thesis by blast
qed

section \<open>The removal list\<close>

text \<open>
  C7. For a fixed removal list, the decrement (the number of removed indices strictly
  below an index) is monotonic non-decreasing in the index.
\<close>

theorem decrement_mono: "i \<le> j \<Longrightarrow> decrement eps i \<le> decrement eps j"
  unfolding decrement_def
  by (induction eps) auto

theorem decrement_mono_witness:
  "(2::int) \<le> 5 \<and> decrement [1, 3] 2 \<le> decrement [1, 3] 5"
  using decrement_mono [of 2 5 "[1, 3]"] by simp

text \<open>
  C8. Two removal lists with the same set of indices, run on the same dataset, give the
  same result (the same final dataset, or the same error): line 22 replaces the list by
  the sorted list of its set before anything else reads it.
\<close>

theorem removal_list_is_a_set:
  "set eps1 = set eps2 \<Longrightarrow> remove_and_reindex pf ds eps1 = remove_and_reindex pf ds eps2"
  by (simp add: remove_and_reindex_def)

theorem removal_list_is_a_set_witness:
  "set [3, 1, 1] = set [1, 3 :: int] \<and>
   remove_and_reindex Posix example_dataset [3, 1, 1] = Inr example_without_1_3 \<and>
   remove_and_reindex Posix example_dataset [1, 3] = Inr example_without_1_3"
proof -
  have s: "set [3, 1, 1] = set [1, 3 :: int]" by auto
  from removal_list_is_a_set [OF s, of Posix example_dataset] example_run_1_3 s
  show ?thesis by simp
qed

section \<open>The metadata streams and the counter\<close>

text \<open>
  C2. In a run that returns, each of the two metadata streams is rewritten as the
  specification says: the records whose \<open>episode_index\<close> is in the removal set are
  dropped and the others kept in their order (a filter, then a map); in each record kept
  the index becomes the old one minus the number of removed indices strictly below it;
  every other field of the record keeps its value, and the keys keep their order. Every
  record read carried an integer index, else the run would have raised.
\<close>

theorem metadata_rewrite_follows_spec:
  assumes "remove_and_reindex pf ds eps = Inr ds'"
  shows "episodes_jsonl ds' = spec_metadata_rewrite (set eps) (episodes_jsonl ds) \<and>
         episodes_stats_jsonl ds' =
           spec_metadata_rewrite (set eps) (episodes_stats_jsonl ds) \<and>
         list_all (\<lambda>e. episode_index e \<noteq> None)
           (episodes_jsonl ds @ episodes_stats_jsonl ds) \<and>
         (\<forall>e i. episode_index e = Some i \<longrightarrow>
            episode_index (spec_rewrite_record (set eps) e) =
              Some (i - int (card {r \<in> set eps. r < i}))) \<and>
         (\<forall>e k. k \<noteq> ''episode_index'' \<longrightarrow>
            map_of (spec_rewrite_record (set eps) e) k = map_of e k) \<and>
         (\<forall>e. map fst (spec_rewrite_record (set eps) e) = map fst e)"
  using run_metadata [OF assms] run_metadata_indexed [OF assms]
    spec_rewrite_record_index [of _ _ "set eps"]
  by (simp add: spec_rewrite_record_other_fields spec_rewrite_record_keys
      spec_decrement_def)

theorem metadata_rewrite_follows_spec_witness:
  "remove_and_reindex Posix example_dataset [1, 3] = Inr example_without_1_3 \<and>
   episodes_jsonl example_without_1_3 =
     spec_metadata_rewrite (set [1, 3]) (episodes_jsonl example_dataset) \<and>
   episodes_stats_jsonl example_without_1_3 =
     spec_metadata_rewrite (set [1, 3]) (episodes_stats_jsonl example_dataset) \<and>
   episodes_jsonl example_without_1_3 =
     [[(''episode_index'', JInt 0), (''length'', JInt 50)],
      [(''episode_index'', JInt 1), (''length'', JInt 52)],
      [(''episode_index'', JInt 2), (''length'', JInt 54)]]"
  using metadata_rewrite_follows_spec [OF example_run_1_3] example_run_1_3
  by (simp add: example_without_1_3_def)

text \<open>
  C3. In a run that returns, \<open>total_episodes\<close> of the summary document is an integer
  before the run, and after the run it is that integer minus the number of distinct
  indices of the removal list: a duplicate is counted once.
\<close>

theorem total_episodes_minus_distinct:
  assumes "remove_and_reindex pf ds eps = Inr ds'"
  shows "\<exists>n. total_episodes ds = Some n \<and>
             total_episodes ds' = Some (n - int (card (set eps)))"
  using run_total_episodes [OF assms] by simp

theorem total_episodes_minus_distinct_witness:
  "remove_and_reindex Posix example_dataset [3, 1, 1] = Inr example_without_1_3 \<and>
   total_episodes example_dataset = Some 5 \<and>
   total_episodes example_without_1_3 = Some (5 - int (card (set [3, 1, 1 :: int])))"
proof -
  have t: "total_episodes example_dataset = Some 5" by code_simp
  from total_episodes_minus_distinct [OF example_run_3_1_1] t example_run_3_1_1
  show ?thesis by auto
qed

text \<open>
  C4, as the claim states it, fails: on the five-episode example, where index 1 has its
  files and index 5 has none, the removal list \<open>[1, 1, 5]\<close> takes \<open>total_episodes\<close>
  from 5 to 3, not to 4, while four tabular files are left.
\<close>

theorem absent_index_counted_counterexample:
  "exists_file (data_dir example_dataset) (parquet_name 1) \<and>
   \<not> exists_file (data_dir example_dataset) (parquet_name 5) \<and>
   \<not> exists_file (laptop_dir example_dataset) (mp4_name 5) \<and>
   \<not> exists_file (phone_dir example_dataset) (mp4_name 5) \<and>
   remove_and_reindex Posix example_dataset [1, 1, 5] = Inr example_without_1_5 \<and>
   total_episodes example_dataset = Some 5 \<and>
   total_episodes example_without_1_5 \<noteq> Some (5 - 1) \<and>
   total_episodes example_without_1_5 = Some (5 - 2) \<and>
   length (glob_parquet (data_dir example_without_1_5)) = 4"
proof -
  have "exists_file (data_dir example_dataset) (parquet_name 1)" by code_simp
  moreover have "\<not> exists_file (data_dir example_dataset) (parquet_name 5)" by code_simp
  moreover have "\<not> exists_file (laptop_dir example_dataset) (mp4_name 5)" by code_simp
  moreover have "\<not> exists_file (phone_dir example_dataset) (mp4_name 5)" by code_simp
  moreover have "total_episodes example_dataset = Some 5" by code_simp
  moreover have "total_episodes example_without_1_5 = Some 3" by code_simp
  moreover have "length (glob_parquet (data_dir example_without_1_5)) = 4" by code_simp
  ultimately show ?thesis using example_run_1_1_5 by simp
qed

text \<open>
  C4, amended. When the removal list is \<open>[1, 1, 5]\<close> and index 5 has no file on disk,
  the deletion step does what deleting episode 1 alone does, and \<open>total_episodes\<close>
  decreases by exactly 2, the number of distinct indices of the list: the duplicate is
  not counted twice, and the index absent on disk is counted.
\<close>

theorem removal_1_1_5_decreases_total_by_2:
  assumes "remove_and_reindex pf ds [1, 1, 5] = Inr ds'"
    and "\<not> exists_file (data_dir ds) (parquet_name 5)"
    and "\<not> exists_file (laptop_dir ds) (mp4_name 5)"
    and "\<not> exists_file (phone_dir ds) (mp4_name 5)"
  shows "remove_files (sorted_list_of_set (set [1, 1, 5])) ds = remove_episode 1 ds \<and>
         (\<exists>n. total_episodes ds = Some n \<and> total_episodes ds' = Some (n - 2))"
proof -
  have s: "sorted_list_of_set (set [1, 1, 5 :: int]) = [1, 5]" by code_simp
  have d: "\<not> exists_file (AList.delete k d) n" if "\<not> exists_file d n" for k n and d :: "'a dir"
    using that by (simp add: exists_file_def delete_conv')
  have "remove_episode 5 (remove_episode 1 ds) = remove_episode 1 ds"
    using assms(2-4)
    by (simp add: remove_episode_def unlink_if_exists_def unlink_def d)
  then have "remove_files (sorted_list_of_set (set [1, 1, 5])) ds = remove_episode 1 ds"
    by (simp add: s)
  moreover from run_total_episodes [OF assms(1)]
  have "\<exists>n. total_episodes ds = Some n \<and> total_episodes ds' = Some (n - 2)"
    by (simp add: s)
  ultimately show ?thesis by simp
qed

theorem removal_1_1_5_decreases_total_by_2_witness:
  "remove_and_reindex Posix example_dataset [1, 1, 5] = Inr example_without_1_5 \<and>
   \<not> exists_file (data_dir example_dataset) (parquet_name 5) \<and>
   \<not> exists_file (laptop_dir example_dataset) (mp4_name 5) \<and>
   \<not> exists_file (phone_dir example_dataset) (mp4_name 5) \<and>
   remove_files (sorted_list_of_set (set [1, 1, 5])) example_dataset =
     remove_episode 1 example_dataset \<and>
   total_episodes example_dataset = Some 5 \<and>
   total_episodes example_without_1_5 = Some (5 - 2)"
proof -
  have a: "\<not> exists_file (data_dir example_dataset) (parquet_name 5)" by code_simp
  have b: "\<not> exists_file (laptop_dir example_dataset) (mp4_name 5)" by code_simp
  have c: "\<not> exists_file (phone_dir example_dataset) (mp4_name 5)" by code_simp
  have t: "total_episodes example_dataset = Some 5" by code_simp
  from removal_1_1_5_decreases_total_by_2 [OF example_run_1_1_5 a b c] a b c t
    example_run_1_1_5
  show ?thesis by auto
qed

section \<open>The tabular files after the run\<close>

text \<open>
  C1, as the claim states it, fails: the removal list is a list of Python integers, and
  with the five episodes 0 to 4 on disk and the removal list \<open>[-1]\<close>, an index that is
  not on disk, every file moves down by one and the tabular files left are those of
  \<open>-1, \<dots>, 3\<close>, not of \<open>0, \<dots>, 4\<close>.
\<close>

theorem negative_removal_index_counterexample:
  "wf_dir (data_dir example_dataset) \<and>
   set (glob_parquet (data_dir example_dataset)) = parquet_name ` {0..<int 5} \<and>
   remove_and_reindex Posix example_dataset [- 1] = Inr example_shifted \<and>
   set (glob_parquet (data_dir example_shifted)) = parquet_name ` {- 1..<4} \<and>
   set (glob_parquet (data_dir example_shifted)) \<noteq>
     parquet_name ` {0..<int 5 - int (card (set [- 1] \<inter> {0..<int 5}))}"
proof -
  have 1: "wf_dir (data_dir example_dataset)" by code_simp
  have 2: "set (glob_parquet (data_dir example_dataset)) = parquet_name ` {0..<int 5}"
    by code_simp
  have 3: "remove_and_reindex Posix example_dataset [- 1] = Inr example_shifted"
    by code_simp
  have 4: "set (glob_parquet (data_dir example_shifted)) = parquet_name ` {- 1..<4}"
    by code_simp
  have 5: "set (glob_parquet (data_dir example_shifted)) \<noteq>
     parquet_name ` {0..<int 5 - int (card (set [- 1] \<inter> {0..<int 5}))}"
    by code_simp
  show ?thesis by (rule conjI [OF 1 conjI [OF 2 conjI [OF 3 conjI [OF 4 5]]]])
qed

text \<open>
  C1, amended. Take a dataset whose tabular files are exactly those of the indices
  \<open>0, \<dots>, M - 1\<close>, and a removal list of non-negative indices (present on disk or
  not, in any order, with or without duplicates). On Unix the run returns when the
  metadata is well formed; and whenever a run returns, on either platform, the tabular
  files it leaves are exactly those of the indices \<open>0, \<dots>, N - 1\<close>, where \<open>N\<close> is
  \<open>M\<close> minus the number of removed indices that were present.
\<close>

theorem dense_after_reindex:
  assumes "wf_dir (data_dir ds)"
    and "set (glob_parquet (data_dir ds)) = parquet_name ` {0..<int M}"
    and "\<forall>r \<in> set eps. 0 \<le> r"
    and "wf_meta ds"
  shows "(\<exists>ds'. remove_and_reindex Posix ds eps = Inr ds') \<and>
         (\<forall>pf ds'. remove_and_reindex pf ds eps = Inr ds' \<longrightarrow>
            wf_dir (data_dir ds') \<and>
            set (glob_parquet (data_dir ds')) =
              parquet_name ` {0..<int M - int (card (set eps \<inter> {0..<int M}))})"
proof (intro conjI allI impI)
  from dense_wf_data_dir [OF assms(1,2)] have wf: "wf_data_dir (data_dir ds)" .
  from run_Posix_total [OF wf assms(4)]
  show "\<exists>ds'. remove_and_reindex Posix ds eps = Inr ds'" .
  fix pf ds'
  assume run: "remove_and_reindex pf ds eps = Inr ds'"
  from run_data_glob(2) [OF run wf] show "wf_dir (data_dir ds')" .
  let ?eps = "sorted_list_of_set (set eps)"
  have "{i. exists_file (data_dir ds) (parquet_name i) \<and> i \<notin> set eps} =
      {0..<int M} - set ?eps"
    by (auto simp: dense_present [OF assms(2)])
  moreover have "new_index ?eps ` ({0..<int M} - set ?eps) =
      {0..<int M - int (card (set ?eps \<inter> {0..<int M}))}"
    using assms(3) by (intro new_index_dense) simp_all
  ultimately show "set (glob_parquet (data_dir ds')) =
      parquet_name ` {0..<int M - int (card (set eps \<inter> {0..<int M}))}"
    using run_data_glob(1) [OF run wf] by simp
qed

theorem dense_after_reindex_witness:
  "wf_dir (data_dir example_dataset) \<and>
   set (glob_parquet (data_dir example_dataset)) = parquet_name ` {0..<int 5} \<and>
   wf_meta example_dataset \<and>
   remove_and_reindex Posix example_dataset [1, 1, 5] = Inr example_without_1_5 \<and>
   set (glob_parquet (data_dir example_without_1_5)) =
     parquet_name ` {0..<int 5 - int (card (set [1, 1, 5] \<inter> {0..<int 5}))} \<and>
   int 5 - int (card (set [1, 1, 5 :: int] \<inter> {0..<int 5})) = 4"
proof -
  have a: "wf_dir (data_dir example_dataset)" by code_simp
  have b: "set (glob_parquet (data_dir example_dataset)) = parquet_name ` {0..<int 5}"
    by code_simp
  have c: "\<forall>r \<in> set [1, 1, 5 :: int]. 0 \<le> r" by simp
  have d: "wf_meta example_dataset" by code_simp
  have e: "int 5 - int (card (set [1, 1, 5 :: int] \<inter> {0..<int 5})) = 4" by code_simp
  note th = dense_after_reindex [OF a b c d]
  from th [THEN conjunct2, rule_format, OF example_run_1_1_5]
  have f: "set (glob_parquet (data_dir example_without_1_5)) =
      parquet_name ` {0..<int 5 - int (card (set [1, 1, 5] \<inter> {0..<int 5}))}"
    by (rule conjunct2)
  show ?thesis
    by (rule conjI [OF a conjI [OF b conjI [OF d conjI [OF example_run_1_1_5
            conjI [OF f e]]]]])
qed

text \<open>
  C5, as the claim states it, fails on Unix for the videos: with tabular files 0, 1, 3,
  laptop videos 0, 1, 2, 3 and the removal list \<open>[1]\<close>, at the moment index 3 is
  renamed to 2 (the loop has handled index 0) the laptop directory still holds a video
  under the destination name, with another payload, and the run replaces it.
\<close>

theorem video_rename_collides_counterexample:
  "[1] = sorted_list_of_set (set [1 :: int]) \<and>
   all_indices (data_dir (remove_files [1] orphan_dataset)) = Inr ([0] @ 3 # []) \<and>
   reindex_loop Posix [1] [0] (remove_files [1] orphan_dataset) =
     Inr (remove_files [1] orphan_dataset) \<and>
   new_index [1] 3 = 2 \<and>
   map_of (laptop_dir (remove_files [1] orphan_dataset)) (mp4_name 3) = Some 203 \<and>
   map_of (laptop_dir (remove_files [1] orphan_dataset)) (mp4_name (new_index [1] 3)) =
     Some 202 \<and>
   remove_and_reindex Posix orphan_dataset [1] = Inr orphan_without_1 \<and>
   map_of (laptop_dir orphan_without_1) (mp4_name 2) = Some 203"
proof -
  have 1: "[1] = sorted_list_of_set (set [1 :: int])" by code_simp
  have 2: "all_indices (data_dir (remove_files [1] orphan_dataset)) = Inr ([0] @ 3 # [])"
    by code_simp
  have 3: "reindex_loop Posix [1] [0] (remove_files [1] orphan_dataset) =
     Inr (remove_files [1] orphan_dataset)" by code_simp
  have 4: "new_index [1] 3 = 2" by code_simp
  have 5: "map_of (laptop_dir (remove_files [1] orphan_dataset)) (mp4_name 3) = Some 203"
    by code_simp
  have 6: "map_of (laptop_dir (remove_files [1] orphan_dataset))
     (mp4_name (new_index [1] 3)) = Some 202" by code_simp
  have 7: "remove_and_reindex Posix orphan_dataset [1] = Inr orphan_without_1" by code_simp
  have 8: "map_of (laptop_dir orphan_without_1) (mp4_name 2) = Some 203" by code_simp
  show ?thesis
    by (rule conjI [OF 1 conjI [OF 2 conjI [OF 3 conjI [OF 4 conjI [OF 5 conjI [OF 6
            conjI [OF 7 8]]]]]]])
qed

text \<open>
  C5, amended. The index map, an index minus the number of removed indices strictly
  below it, is injective on the indices that are not removed. In the loop, which takes
  the present indices in increasing order, at the moment an index is renamed (the state
  the loop has reached on the indices before it) no tabular file has the destination
  name; and in either camera-view directory the destination name is free or is held by
  a video that was there from the start, unchanged, whose index is not removed and has
  no tabular file. So no file of an episode that has a tabular file is clobbered.
\<close>

theorem renames_do_not_collide:
  assumes "wf_data_dir (data_dir ds)"
    and "eps = sorted_list_of_set (set episodes_to_remove)"
    and "all_indices (data_dir (remove_files eps ds)) = Inr (before @ idx # after)"
    and "reindex_loop pf eps before (remove_files eps ds) = Inr ds_k"
    and "vdir = laptop_dir \<or> vdir = phone_dir"
  shows "inj_on (new_index eps) (- set eps) \<and>
         (new_index eps idx \<noteq> idx \<longrightarrow>
            \<not> exists_file (data_dir ds_k) (parquet_name (new_index eps idx)) \<and>
            (exists_file (vdir ds_k) (mp4_name (new_index eps idx)) \<longrightarrow>
               new_index eps idx \<notin> set eps \<and>
               \<not> exists_file (data_dir ds) (parquet_name (new_index eps idx)) \<and>
               map_of (vdir ds_k) (mp4_name (new_index eps idx)) =
                 map_of (vdir ds) (mp4_name (new_index eps idx))))"
proof -
  let ?ds1 = "remove_files eps ds"
  let ?xs = "before @ idx # after"
  let ?w = "new_index eps idx"
  from assms(2) have dist: "distinct eps" by simp
  then have inj: "inj_on (new_index eps) (- set eps)" by (rule new_index_inj_on)
  from remove_files_wf_data_dir [OF assms(1)] have "wf_data_dir (data_dir ?ds1)" .
  then obtain xs where xs: "all_indices (data_dir ?ds1) = Inr xs" "sorted xs" "distinct xs"
    "set (glob_parquet (data_dir ?ds1)) = parquet_name ` set xs"
    "\<forall>i. i \<in> set xs \<longleftrightarrow> exists_file (data_dir ?ds1) (parquet_name i)"
    by (rule all_indices_wf)
  from xs(1) assms(3) have eq: "xs = ?xs" by simp
  from xs(2,3) eq have srt: "sorted before" "distinct before"
    and below: "\<forall>a \<in> set after. idx < a" and nb: "idx \<notin> set before"
    by (auto simp: sorted_append less_le)
  from xs(5) eq have pres: "\<forall>i. i \<in> set ?xs \<longleftrightarrow> exists_file (data_dir ?ds1) (parquet_name i)"
    by simp
  then have surv: "\<forall>i \<in> set ?xs. i \<notin> set eps"
    by (simp add: present_after_removal)
  then have idx_kept: "idx \<in> - set eps" by simp
  have other: "new_index eps y \<noteq> ?w" if "y \<in> set before" for y
  proof
    assume e: "new_index eps y = ?w"
    from that nb have "y \<noteq> idx" by auto
    moreover from that surv have "y \<in> - set eps" by simp
    ultimately show False using inj e idx_kept by (auto dest: inj_onD)
  qed
  have in_before: "?w \<in> set before" if "?w \<in> set ?xs" "?w \<noteq> idx"
  proof (rule ccontr)
    assume "?w \<notin> set before"
    with that have "?w \<in> set after" by simp
    with below have "idx < ?w" by simp
    with new_index_le [of eps idx] show False by simp
  qed
  from pres have sub: "parquet_name ` set before \<subseteq> fst ` set (data_dir ?ds1)"
    by (auto simp: exists_file_iff)
  note names = reindex_loop_data_names [OF assms(4) srt sub]
  have data: "\<not> exists_file (data_dir ds_k) (parquet_name ?w)" if moved: "?w \<noteq> idx"
  proof
    assume "exists_file (data_dir ds_k) (parquet_name ?w)"
    then have "parquet_name ?w \<in> fst ` set (data_dir ds_k)"
      by (simp add: exists_file_iff)
    then consider
      (old) "parquet_name ?w \<in> fst ` set (data_dir ?ds1)" "?w \<notin> set before"
      | (new) y where "y \<in> set before" "new_index eps y = ?w"
      unfolding names by auto
    then show False
    proof cases
      case old
      from old(1) pres have "?w \<in> set ?xs" by (simp add: exists_file_iff)
      from in_before [OF this moved] old(2) show False by simp
    next
      case new
      from other [OF new(1)] new(2) show False by simp
    qed
  qed
  have video: "?w \<notin> set eps \<and> \<not> exists_file (data_dir ds) (parquet_name ?w) \<and>
      map_of (vdir ds_k) (mp4_name ?w) = map_of (vdir ds) (mp4_name ?w)"
    if moved: "?w \<noteq> idx" and occ: "exists_file (vdir ds_k) (mp4_name ?w)"
  proof -
    have wx: "?w \<notin> set ?xs"
    proof
      assume "?w \<in> set ?xs"
      from in_before [OF this moved] have wb: "?w \<in> set before" .
      have "new_index eps ?w \<noteq> ?w" using other [OF wb] by auto
      moreover have "\<forall>y \<in> set before. new_index eps y \<noteq> ?w" using other by simp
      ultimately have "\<not> exists_file (vdir ds_k) (mp4_name ?w)"
        by (rule reindex_loop_video_vacated [OF assms(4,5) srt wb])
      with occ show False by simp
    qed
    then have a: "\<forall>x \<in> set before. mp4_name ?w \<noteq> mp4_name x" by auto
    have b: "\<forall>x \<in> set before.
        new_index eps x \<noteq> x \<and> exists_file (vdir ?ds1) (mp4_name x) \<longrightarrow>
        mp4_name ?w \<noteq> mp4_name (new_index eps x)"
    proof (intro ballI impI)
      fix x
      assume "x \<in> set before"
      from other [OF this] have "?w \<noteq> new_index eps x" by (rule not_sym)
      then show "mp4_name ?w \<noteq> mp4_name (new_index eps x)" by simp
    qed
    from reindex_loop_video_frame [OF assms(4,5) srt a b]
    have fr: "map_of (vdir ds_k) (mp4_name ?w) = map_of (vdir ?ds1) (mp4_name ?w)" .
    from occ fr have k: "?w \<notin> set eps"
      by (auto simp: exists_file_def remove_files_video [OF assms(5)])
    then have "mp4_name ?w \<notin> mp4_name ` set eps" by auto
    with fr have c: "map_of (vdir ds_k) (mp4_name ?w) = map_of (vdir ds) (mp4_name ?w)"
      by (simp add: remove_files_video [OF assms(5)])
    from wx pres have "\<not> exists_file (data_dir ?ds1) (parquet_name ?w)" by blast
    with k have "\<not> exists_file (data_dir ds) (parquet_name ?w)"
      by (simp add: present_after_removal)
    with k c show ?thesis by simp
  qed
  from inj data video show ?thesis by blast
qed

theorem renames_do_not_collide_witness:
  "wf_data_dir (data_dir orphan_dataset) \<and>
   [1] = sorted_list_of_set (set [1, 1 :: int]) \<and>
   all_indices (data_dir (remove_files [1] orphan_dataset)) = Inr ([0] @ 3 # []) \<and>
   reindex_loop Posix [1] [0] (remove_files [1] orphan_dataset) =
     Inr (remove_files [1] orphan_dataset) \<and>
   inj_on (new_index [1]) (- set [1]) \<and>
   new_index [1] 3 = 2 \<and>
   \<not> exists_file (data_dir (remove_files [1] orphan_dataset))
       (parquet_name (new_index [1] 3)) \<and>
   exists_file (laptop_dir (remove_files [1] orphan_dataset)) (mp4_name (new_index [1] 3)) \<and>
   \<not> exists_file (data_dir orphan_dataset) (parquet_name (new_index [1] 3)) \<and>
   map_of (laptop_dir (remove_files [1] orphan_dataset)) (mp4_name (new_index [1] 3)) =
     map_of (laptop_dir orphan_dataset) (mp4_name (new_index [1] 3))"
proof -
  have a: "wf_data_dir (data_dir orphan_dataset)" by code_simp
  have b: "[1] = sorted_list_of_set (set [1, 1 :: int])" by code_simp
  have c: "all_indices (data_dir (remove_files [1] orphan_dataset)) = Inr ([0] @ 3 # [])"
    by code_simp
  have d: "reindex_loop Posix [1] [0] (remove_files [1] orphan_dataset) =
      Inr (remove_files [1] orphan_dataset)" by code_simp
  have v: "laptop_dir = laptop_dir \<or> (laptop_dir :: nat dataset \<Rightarrow> nat dir) = phone_dir"
    by simp
  have e: "new_index [1] 3 = 2" by code_simp
  have ne: "new_index [1] 3 \<noteq> 3" by code_simp
  have occ: "exists_file (laptop_dir (remove_files [1] orphan_dataset))
      (mp4_name (new_index [1] 3))" by code_simp
  note th = renames_do_not_collide [OF a b c d v]
  from th have i: "inj_on (new_index [1]) (- set [1])" by (rule conjunct1)
  note th2 = th [THEN conjunct2, THEN mp, OF ne]
  from th2 have n: "\<not> exists_file (data_dir (remove_files [1] orphan_dataset))
      (parquet_name (new_index [1] 3))" by (rule conjunct1)
  note th3 = th2 [THEN conjunct2, THEN mp, OF occ]
  from th3 have o: "\<not> exists_file (data_dir orphan_dataset) (parquet_name (new_index [1] 3))"
    by (rule conjunct2 [THEN conjunct1])
  from th3 have k: "map_of (laptop_dir (remove_files [1] orphan_dataset))
      (mp4_name (new_index [1] 3)) =
     map_of (laptop_dir orphan_dataset) (mp4_name (new_index [1] 3))"
    by (rule conjunct2 [THEN conjunct2])
  show ?thesis
    by (rule conjI [OF a conjI [OF b conjI [OF c conjI [OF d conjI [OF i conjI [OF e
            conjI [OF n conjI [OF occ conjI [OF o k]]]]]]]]])
qed

section \<open>Removal indices that are not on disk\<close>

text \<open>
  C9, as the claim states it, fails: with episodes 0 and 2 on disk and the removal list
  \<open>[1]\<close>, an index that has no tabular file, the run raises nothing but renames
  episode 2 to 1, its tabular file and both its videos, and also its metadata records.
\<close>

theorem absent_index_shifts_later_episodes_counterexample:
  "\<not> exists_file (data_dir gap_dataset) (parquet_name 1) \<and>
   remove_and_reindex Posix gap_dataset [1] = Inr gap_without_1 \<and>
   map_of (data_dir gap_dataset) (parquet_name 2) = Some 102 \<and>
   map_of (data_dir gap_without_1) (parquet_name 2) = None \<and>
   map_of (data_dir gap_without_1) (parquet_name 1) = Some 102 \<and>
   map_of (laptop_dir gap_dataset) (mp4_name 2) = Some 202 \<and>
   map_of (laptop_dir gap_without_1) (mp4_name 2) = None \<and>
   map_of (laptop_dir gap_without_1) (mp4_name 1) = Some 202"
proof -
  have 1: "\<not> exists_file (data_dir gap_dataset) (parquet_name 1)" by code_simp
  have 2: "remove_and_reindex Posix gap_dataset [1] = Inr gap_without_1" by code_simp
  have 3: "map_of (data_dir gap_dataset) (parquet_name 2) = Some 102" by code_simp
  have 4: "map_of (data_dir gap_without_1) (parquet_name 2) = None" by code_simp
  have 5: "map_of (data_dir gap_without_1) (parquet_name 1) = Some 102" by code_simp
  have 6: "map_of (laptop_dir gap_dataset) (mp4_name 2) = Some 202" by code_simp
  have 7: "map_of (laptop_dir gap_without_1) (mp4_name 2) = None" by code_simp
  have 8: "map_of (laptop_dir gap_without_1) (mp4_name 1) = Some 202" by code_simp
  show ?thesis
    by (rule conjI [OF 1 conjI [OF 2 conjI [OF 3 conjI [OF 4 conjI [OF 5 conjI [OF 6
            conjI [OF 7 8]]]]]]])
qed

text \<open>
  C9, amended. For every removal list whose indices have no tabular file on disk and none
  of which lies below an index that has one, on a well-formed dataset, the run raises no
  error on either platform and no file is renamed: the tabular directory is left as it
  was, and each video directory is left as it was but for the videos of the removed
  indices, which are deleted when they exist and skipped when they do not.
\<close>

theorem absent_indices_above_are_skipped:
  assumes "wf_data_dir (data_dir ds)" and "wf_meta ds"
    and "\<forall>r \<in> set eps. \<not> exists_file (data_dir ds) (parquet_name r)"
    and "\<forall>r \<in> set eps. \<forall>i. exists_file (data_dir ds) (parquet_name i) \<longrightarrow> i \<le> r"
  shows "\<exists>ds'. remove_and_reindex pf ds eps = Inr ds' \<and>
           data_dir ds' = data_dir ds \<and>
           (\<forall>n. map_of (laptop_dir ds') n =
                  (if n \<in> mp4_name ` set eps then None else map_of (laptop_dir ds) n)) \<and>
           (\<forall>n. map_of (phone_dir ds') n =
                  (if n \<in> mp4_name ` set eps then None else map_of (phone_dir ds) n))"
proof -
  let ?eps = "sorted_list_of_set (set eps)"
  let ?ds1 = "remove_files ?eps ds"
  from assms(3) have same: "data_dir ?ds1 = data_dir ds"
    by (intro remove_files_data_absent) simp
  with assms(1) have "wf_data_dir (data_dir ?ds1)" by simp
  then obtain xs where xs: "all_indices (data_dir ?ds1) = Inr xs"
    "\<forall>i. i \<in> set xs \<longleftrightarrow> exists_file (data_dir ?ds1) (parquet_name i)"
    by (rule all_indices_wf)
  from xs(2) same assms(4) have "\<forall>x \<in> set xs. new_index ?eps x = x"
    by (simp add: new_index_fixed_iff)
  then have loop: "reindex_loop pf ?eps xs ?ds1 = Inr ?ds1"
    by (rule reindex_loop_fixed)
  from run_after_loop [OF assms(2) xs(1) loop] obtain ds' where
    "remove_and_reindex pf ds eps = Inr ds'" "data_dir ds' = data_dir ?ds1"
    "laptop_dir ds' = laptop_dir ?ds1" "phone_dir ds' = phone_dir ?ds1"
    by blast
  with same show ?thesis
    by (simp add: remove_files_map_of)
qed

theorem absent_indices_above_are_skipped_witness:
  "wf_data_dir (data_dir example_dataset) \<and> wf_meta example_dataset \<and>
   \<not> exists_file (data_dir example_dataset) (parquet_name 7) \<and>
   \<not> exists_file (data_dir example_dataset) (parquet_name 5) \<and>
   remove_and_reindex Windows example_dataset [7, 5] = Inr example_without_5_7 \<and>
   data_dir example_without_5_7 = data_dir example_dataset \<and>
   map_of (laptop_dir example_without_5_7) (mp4_name 4) =
     map_of (laptop_dir example_dataset) (mp4_name 4)"
proof -
  have a: "wf_data_dir (data_dir example_dataset)" by code_simp
  have b: "wf_meta example_dataset" by code_simp
  have c7: "\<not> exists_file (data_dir example_dataset) (parquet_name 7)" by code_simp
  have c5: "\<not> exists_file (data_dir example_dataset) (parquet_name 5)" by code_simp
  from c7 c5 have c: "\<forall>r \<in> set [7, 5 :: int].
      \<not> exists_file (data_dir example_dataset) (parquet_name r)" by simp
  have p: "i \<le> 4" if "exists_file (data_dir example_dataset) (parquet_name i)" for i
    using that by (auto simp: exists_file_iff example_dataset_def)
  have d: "\<forall>r \<in> set [7, 5 :: int]. \<forall>i.
      exists_file (data_dir example_dataset) (parquet_name i) \<longrightarrow> i \<le> r"
    using p by fastforce
  have run: "remove_and_reindex Windows example_dataset [7, 5] = Inr example_without_5_7"
    by code_simp
  from absent_indices_above_are_skipped [OF a b c d, of Windows] run
  have e: "data_dir example_without_5_7 = data_dir example_dataset"
    and f: "\<forall>n. map_of (laptop_dir example_without_5_7) n =
      (if n \<in> mp4_name ` set [7, 5] then None else map_of (laptop_dir example_dataset) n)"
    by auto
  have "mp4_name 4 \<notin> mp4_name ` set [7, 5]" by simp
  with f have g: "map_of (laptop_dir example_without_5_7) (mp4_name 4) =
     map_of (laptop_dir example_dataset) (mp4_name 4)" by simp
  show ?thesis
    by (rule conjI [OF a conjI [OF b conjI [OF c7 conjI [OF c5 conjI [OF run conjI [OF e g]]]]]])
qed

section \<open>Videos without a tabular file\<close>

text \<open>
  C10, as the claim states it, fails on Unix: index 2 has a laptop video and no tabular
  file and is not removed, yet with the removal list \<open>[1]\<close> episode 3 becomes episode
  2 and the rename of its laptop video replaces the video that had that name. (On Windows
  the same rename raises FileExistsError and the run stops there.)
\<close>

theorem orphan_video_overwritten_counterexample:
  "\<not> exists_file (data_dir orphan_dataset) (parquet_name 2) \<and>
   map_of (laptop_dir orphan_dataset) (mp4_name 2) = Some 202 \<and>
   map_of (laptop_dir orphan_dataset) (mp4_name 3) = Some 203 \<and>
   remove_and_reindex Posix orphan_dataset [1] = Inr orphan_without_1 \<and>
   map_of (laptop_dir orphan_without_1) (mp4_name 2) = Some 203 \<and>
   remove_and_reindex Windows orphan_dataset [1] = Inl FileExistsError"
proof -
  have 1: "\<not> exists_file (data_dir orphan_dataset) (parquet_name 2)" by code_simp
  have 2: "map_of (laptop_dir orphan_dataset) (mp4_name 2) = Some 202" by code_simp
  have 3: "map_of (laptop_dir orphan_dataset) (mp4_name 3) = Some 203" by code_simp
  have 4: "remove_and_reindex Posix orphan_dataset [1] = Inr orphan_without_1" by code_simp
  have 5: "map_of (laptop_dir orphan_without_1) (mp4_name 2) = Some 203" by code_simp
  have 6: "remove_and_reindex Windows orphan_dataset [1] = Inl FileExistsError" by code_simp
  show ?thesis
    by (rule conjI [OF 1 conjI [OF 2 conjI [OF 3 conjI [OF 4 conjI [OF 5 6]]]]])
qed

text \<open>
  C10, amended. Let \<open>vdir\<close> be either camera-view directory of a well-formed dataset,
  and \<open>v\<close> an index that has a video there, has no tabular file and is not removed. In
  every run that returns, that name is still in the directory: the video is neither
  deleted nor renamed, because the indices to remap come from the tabular listing alone.
  And the file under that name is the one that was there, provided \<open>v\<close> is not the
  new index of an episode that is kept, has a tabular file and has a video in that
  directory.
\<close>

theorem orphan_video_kept:
  assumes "wf_data_dir (data_dir ds)"
    and "remove_and_reindex pf ds eps = Inr ds'"
    and "vdir = laptop_dir \<or> vdir = phone_dir"
    and "exists_file (vdir ds) (mp4_name v)"
    and "\<not> exists_file (data_dir ds) (parquet_name v)"
    and "v \<notin> set eps"
  shows "exists_file (vdir ds') (mp4_name v) \<and>
         ((\<forall>i. exists_file (data_dir ds) (parquet_name i) \<and> i \<notin> set eps \<and>
               exists_file (vdir ds) (mp4_name i) \<longrightarrow>
               i - int (card {r \<in> set eps. r < i}) \<noteq> v) \<longrightarrow>
          map_of (vdir ds') (mp4_name v) = map_of (vdir ds) (mp4_name v))"
proof (intro conjI impI)
  let ?eps = "sorted_list_of_set (set eps)"
  let ?ds1 = "remove_files ?eps ds"
  from assms(2,1) obtain xs ds2 where xs: "sorted xs" "distinct xs"
    and mem: "\<forall>i. i \<in> set xs \<longleftrightarrow> exists_file (data_dir ds) (parquet_name i) \<and> i \<notin> set eps"
    and loop: "reindex_loop pf ?eps xs ?ds1 = Inr ds2"
    and l: "laptop_dir ds' = laptop_dir ds2" and p: "phone_dir ds' = phone_dir ds2"
    by (rule run_Inr_wf)
  from assms(3) l p have v': "vdir ds' = vdir ds2" by auto
  from assms(6) have "mp4_name v \<notin> mp4_name ` set ?eps" by auto
  then have v1: "map_of (vdir ?ds1) (mp4_name v) = map_of (vdir ds) (mp4_name v)"
    by (simp add: remove_files_video [OF assms(3)])
  from mem assms(5) have notx: "\<forall>x \<in> set xs. mp4_name v \<noteq> mp4_name x" by auto
  from assms(4) v1 have "exists_file (vdir ?ds1) (mp4_name v)"
    by (simp add: exists_file_def)
  from reindex_loop_video_stays [OF loop assms(3) notx this] v'
  show "exists_file (vdir ds') (mp4_name v)" by simp
  assume free: "\<forall>i. exists_file (data_dir ds) (parquet_name i) \<and> i \<notin> set eps \<and>
      exists_file (vdir ds) (mp4_name i) \<longrightarrow> i - int (card {r \<in> set eps. r < i}) \<noteq> v"
  have "\<forall>x \<in> set xs. new_index ?eps x \<noteq> x \<and> exists_file (vdir ?ds1) (mp4_name x) \<longrightarrow>
      mp4_name v \<noteq> mp4_name (new_index ?eps x)"
  proof (intro ballI impI)
    fix x
    assume x: "x \<in> set xs"
      and m: "new_index ?eps x \<noteq> x \<and> exists_file (vdir ?ds1) (mp4_name x)"
    from m have "exists_file (vdir ds) (mp4_name x)"
      by (simp add: exists_file_def remove_files_video [OF assms(3)] split: if_splits)
    with x mem free have "x - int (card {r \<in> set eps. r < x}) \<noteq> v" by simp
    then have "new_index ?eps x \<noteq> v"
      by (simp add: new_index_def decrement_sorted_list_of_set spec_decrement_def)
    then show "mp4_name v \<noteq> mp4_name (new_index ?eps x)" by auto
  qed
  from reindex_loop_video_frame [OF loop assms(3) xs notx this] v1 v'
  show "map_of (vdir ds') (mp4_name v) = map_of (vdir ds) (mp4_name v)" by simp
qed

theorem orphan_video_kept_witness:
  "wf_data_dir (data_dir orphan_dataset) \<and>
   remove_and_reindex Posix orphan_dataset [1] = Inr orphan_without_1 \<and>
   exists_file (phone_dir orphan_dataset) (mp4_name 7) \<and>
   \<not> exists_file (data_dir orphan_dataset) (parquet_name 7) \<and>
   exists_file (phone_dir orphan_without_1) (mp4_name 7) \<and>
   map_of (phone_dir orphan_without_1) (mp4_name 7) =
     map_of (phone_dir orphan_dataset) (mp4_name 7)"
proof -
  have a: "wf_data_dir (data_dir orphan_dataset)" by code_simp
  have b: "remove_and_reindex Posix orphan_dataset [1] = Inr orphan_without_1" by code_simp
  have c: "phone_dir = laptop_dir \<or> (phone_dir :: nat dataset \<Rightarrow> nat dir) = phone_dir"
    by simp
  have d: "exists_file (phone_dir orphan_dataset) (mp4_name 7)" by code_simp
  have e: "\<not> exists_file (data_dir orphan_dataset) (parquet_name 7)" by code_simp
  have f: "7 \<notin> set [1 :: int]" by simp
  have p: "i \<le> 3" if "exists_file (data_dir orphan_dataset) (parquet_name i)" for i
    using that by (auto simp: exists_file_iff orphan_dataset_def)
  have g: "\<forall>i. exists_file (data_dir orphan_dataset) (parquet_name i) \<and> i \<notin> set [1] \<and>
      exists_file (phone_dir orphan_dataset) (mp4_name i) \<longrightarrow>
      i - int (card {r \<in> set [1]. r < i}) \<noteq> 7"
  proof (intro allI impI)
    fix i :: int
    assume "exists_file (data_dir orphan_dataset) (parquet_name i) \<and> i \<notin> set [1] \<and>
      exists_file (phone_dir orphan_dataset) (mp4_name i)"
    with p [of i] have "i \<le> 3" by simp
    then show "i - int (card {r \<in> set [1]. r < i}) \<noteq> 7" by simp
  qed
  note th = orphan_video_kept [OF a b c d e f]
  from th have h: "exists_file (phone_dir orphan_without_1) (mp4_name 7)"
    by (rule conjunct1)
  from th [THEN conjunct2, THEN mp, OF g]
  have k: "map_of (phone_dir orphan_without_1) (mp4_name 7) =
     map_of (phone_dir orphan_dataset) (mp4_name 7)" .
  show ?thesis
    by (rule conjI [OF a conjI [OF b conjI [OF d conjI [OF e conjI [OF h k]]]]])
qed

section \<open>The worked example\<close>

text \<open>
  C6. Episodes 0 to 4 on disk, whatever the payloads of their files and the other fields
  of their records, and the removal list \<open>[1, 3]\<close>. On either platform the run returns;
  old index 0 stays 0, old 2 becomes 1 and old 4 becomes 2, for the tabular files and for
  the videos of both camera views; each metadata stream keeps the three records of 0, 2
  and 4, in that order, renumbered 0, 1, 2; \<open>total_episodes\<close> decreases by 2.
\<close>

theorem example_remove_1_3:
  "remove_and_reindex pf
     \<lparr>data_dir = [(parquet_name 0, a0), (parquet_name 1, a1), (parquet_name 2, a2),
                  (parquet_name 3, a3), (parquet_name 4, a4)],
      laptop_dir = [(mp4_name 0, l0), (mp4_name 1, l1), (mp4_name 2, l2),
                    (mp4_name 3, l3), (mp4_name 4, l4)],
      phone_dir = [(mp4_name 0, p0), (mp4_name 1, p1), (mp4_name 2, p2),
                   (mp4_name 3, p3), (mp4_name 4, p4)],
      episodes_jsonl =
        [[(''episode_index'', JInt 0), (''length'', x0)],
         [(''episode_index'', JInt 1), (''length'', x1)],
         [(''episode_index'', JInt 2), (''length'', x2)],
         [(''episode_index'', JInt 3), (''length'', x3)],
         [(''episode_index'', JInt 4), (''length'', x4)]],
      episodes_stats_jsonl =
        [[(''episode_index'', JInt 0), (''stats'', y0)],
         [(''episode_index'', JInt 1), (''stats'', y1)],
         [(''episode_index'', JInt 2), (''stats'', y2)],
         [(''episode_index'', JInt 3), (''stats'', y3)],
         [(''episode_index'', JInt 4), (''stats'', y4)]],
      info_json = [(''codebase_version'', w), (''total_episodes'', JInt n)]\<rparr>
     [1, 3] =
   Inr
     \<lparr>data_dir = [(parquet_name 0, a0), (parquet_name 1, a2), (parquet_name 2, a4)],
      laptop_dir = [(mp4_name 0, l0), (mp4_name 1, l2), (mp4_name 2, l4)],
      phone_dir = [(mp4_name 0, p0), (mp4_name 1, p2), (mp4_name 2, p4)],
      episodes_jsonl =
        [[(''episode_index'', JInt 0), (''length'', x0)],
         [(''episode_index'', JInt 1), (''length'', x2)],
         [(''episode_index'', JInt 2), (''length'', x4)]],
      episodes_stats_jsonl =
        [[(''episode_index'', JInt 0), (''stats'', y0)],
         [(''episode_index'', JInt 1), (''stats'', y2)],
         [(''episode_index'', JInt 2), (''stats'', y4)]],
      info_json = [(''codebase_version'', w), (''total_episodes'', JInt (n - 2))]\<rparr> \<and>
   new_index (sorted_list_of_set (set [1, 3])) 0 = 0 \<and>
   new_index (sorted_list_of_set (set [1, 3])) 2 = 1 \<and>
   new_index (sorted_list_of_set (set [1, 3])) 4 = 2"
proof -
  have pn: "parquet_name 0 = ''episode_000000.parquet''"
    "parquet_name 1 = ''episode_000001.parquet''"
    "parquet_name 2 = ''episode_000002.parquet''"
    "parquet_name 3 = ''episode_000003.parquet''"
    "parquet_name 4 = ''episode_000004.parquet''"
    by code_simp+
  have mn: "mp4_name 0 = ''episode_000000.mp4''" "mp4_name 1 = ''episode_000001.mp4''"
    "mp4_name 2 = ''episode_000002.mp4''" "mp4_name 3 = ''episode_000003.mp4''"
    "mp4_name 4 = ''episode_000004.mp4''"
    by code_simp+
  have ix: "index_of_name ''episode_000000.parquet'' = Inr 0"
    "index_of_name ''episode_000002.parquet'' = Inr 2"
    "index_of_name ''episode_000004.parquet'' = Inr 4"
    by code_simp+
  have gm: "glob_match ''episode_000000.parquet''" "glob_match ''episode_000002.parquet''"
    "glob_match ''episode_000004.parquet''"
    by code_simp+
  have s: "sorted_list_of_set (set [1, 3 :: int]) = [1, 3]" by code_simp
  have ni: "new_index [1, 3] 0 = 0" "new_index [1, 3] 2 = 1" "new_index [1, 3] 4 = 2"
    by code_simp+
  show ?thesis
    unfolding remove_and_reindex_def s
    by (simp add: ni pn mn ix gm remove_episode_def unlink_if_exists_def exists_file_def
        unlink_def all_indices_def glob_parquet_def reindex_episode_def rename_def
        rename_video_def decrement_def rewrite_entry_def update_info_def)
qed

end
